theory Spec2Isabelle
  imports Main "HOL-Library.AList"
begin

section \<open>Data model (types/findings, core/cache.ts)\<close>

datatype Severity = CRITICAL | HIGH | MEDIUM | LOW

text \<open>A thrown JavaScript value; only the fact that something was thrown matters here.\<close>

datatype error = Error string | TypeError

record Finding =
  ruleId :: string
  description :: string
  severity :: Severity
  filePath :: string
  line :: "int option"
  snippet :: "string option"
  suggestion :: "string option"

record CacheEntry =
  hash :: string
  findings :: "Finding list"
  timestamp :: int
  version :: string

text \<open>
  \<open>files\<close> is a JavaScript object used as a dictionary from file paths to entries. It is kept
  as an association list in insertion order, which is the order \<open>Object.keys\<close> enumerates;
  an object holds each key once, so the lists that stand for objects have distinct keys.
  Keys are file paths; the properties every object inherits from \<open>Object.prototype\<close> are
  not file paths and are left out.
\<close>

record CacheData =
  files :: "(string \<times> CacheEntry) list"
  createdAt :: int
  updatedAt :: int

text \<open>
  The private fields of class \<open>ScanCache\<close>. \<open>cacheFile\<close> is read by \<open>load\<close> and
  \<open>save\<close> only, to name the file on the disk, and is left out.
\<close>

record ScanCache =
  cache :: CacheData
  version :: string
  isDirty :: bool
  enabled :: bool

section \<open>ScanCache (core/cache.ts)\<close>

text \<open>\<open>Date.now()\<close> is the parameter \<open>now\<close> of every operation that reads the clock.\<close>

definition createEmptyCache :: "int \<Rightarrow> CacheData" where
  "createEmptyCache now = \<lparr> files = [], createdAt = now, updatedAt = now \<rparr>"

text \<open>The constructor: \<open>isDirty = false\<close>, \<open>enabled = true\<close>, an empty cache.\<close>

definition new_ScanCache :: "string \<Rightarrow> int \<Rightarrow> ScanCache" where
  "new_ScanCache ver now =
     \<lparr> cache = createEmptyCache now, version = ver, isDirty = False, enabled = True \<rparr>"

definition isValid :: "ScanCache \<Rightarrow> string \<Rightarrow> string \<Rightarrow> bool" where
  "isValid s fp contentHash =
     (if \<not> enabled s then False
      else case map_of (files (cache s)) fp of
             None \<Rightarrow> False
           | Some entry \<Rightarrow>
               if hash entry \<noteq> contentHash then False
               else if CacheEntry.version entry \<noteq> version s then False
               else True)"

text \<open>\<open>null\<close> is \<open>None\<close>.\<close>

definition getFindings :: "ScanCache \<Rightarrow> string \<Rightarrow> Finding list option" where
  "getFindings s fp =
     (if \<not> enabled s then None
      else case map_of (files (cache s)) fp of
             None \<Rightarrow> None
           | Some entry \<Rightarrow> Some (findings entry))"

text \<open>\<open>ScanCache.set\<close>; the name \<open>set\<close> is taken in HOL.\<close>

definition set_entry :: "ScanCache \<Rightarrow> string \<Rightarrow> string \<Rightarrow> Finding list \<Rightarrow> int \<Rightarrow> ScanCache" where
  "set_entry s fp contentHash fs now =
     (if \<not> enabled s then s
      else s\<lparr> cache := (cache s)\<lparr> files :=
                  AList.update fp
                    \<lparr> hash = contentHash, findings = fs, timestamp = now, version = version s \<rparr>
                    (files (cache s)) \<rparr>,
              isDirty := True \<rparr>)"

definition remove :: "ScanCache \<Rightarrow> string \<Rightarrow> ScanCache" where
  "remove s fp =
     (case map_of (files (cache s)) fp of
        Some entry \<Rightarrow>
          s\<lparr> cache := (cache s)\<lparr> files := AList.delete fp (files (cache s)) \<rparr>,
             isDirty := True \<rparr>
      | None \<Rightarrow> s)"

definition clear :: "ScanCache \<Rightarrow> int \<Rightarrow> ScanCache" where
  "clear s now = s\<lparr> cache := createEmptyCache now, isDirty := True \<rparr>"

definition getStats :: "ScanCache \<Rightarrow> nat" where
  "getStats s = length (map fst (files (cache s)))"

definition setEnabled :: "ScanCache \<Rightarrow> bool \<Rightarrow> ScanCache" where
  "setEnabled s b = s\<lparr> enabled := b \<rparr>"

definition isEnabled :: "ScanCache \<Rightarrow> bool" where
  "isEnabled s = enabled s"

text \<open>
  The loop of \<open>prune\<close> over the snapshot \<open>Object.keys(this.cache.files)\<close>. The state is the
  cache object and the counter \<open>pruned\<close>. The test is JavaScript's short-circuit
  \<open>!existingFiles.has(filePath) || entry.timestamp < cutoffTime\<close>: the entry is read only
  when the path is in \<open>existingFiles\<close>, and reading \<open>timestamp\<close> of a missing entry throws.
\<close>

fun prune_loop :: "string list \<Rightarrow> string set \<Rightarrow> int \<Rightarrow> ScanCache \<times> nat \<Rightarrow> error + ScanCache \<times> nat" where
  "prune_loop [] existingFiles cutoffTime (s, pruned) = Inr (s, pruned)"
| "prune_loop (fp # rest) existingFiles cutoffTime (s, pruned) =
     (let deleted = (s\<lparr> cache := (cache s)\<lparr> files := AList.delete fp (files (cache s)) \<rparr>,
                        isDirty := True \<rparr>, pruned + 1)
      in if fp \<notin> existingFiles then prune_loop rest existingFiles cutoffTime deleted
         else case map_of (files (cache s)) fp of
                None \<Rightarrow> Inl TypeError
              | Some entry \<Rightarrow>
                  if timestamp entry < cutoffTime
                  then prune_loop rest existingFiles cutoffTime deleted
                  else prune_loop rest existingFiles cutoffTime (s, pruned))"

text \<open>The default of \<open>maxAgeMs\<close> is seven days; \<open>None\<close> is the omitted argument.\<close>

definition prune :: "ScanCache \<Rightarrow> string set \<Rightarrow> int option \<Rightarrow> int \<Rightarrow> error + ScanCache \<times> nat" where
  "prune s existingFiles maxAgeMs now =
     (let cutoffTime = now - (case maxAgeMs of None \<Rightarrow> 7 * 24 * 60 * 60 * 1000 | Some m \<Rightarrow> m)
      in prune_loop (map fst (files (cache s))) existingFiles cutoffTime (s, 0))"

text \<open>
  \<open>load\<close>, with what it finds on the disk as the parameter \<open>disk\<close>: \<open>Inl\<close> when reading
  or parsing the cache file throws, \<open>Inr None\<close> when the parsed value fails the structure
  test, \<open>Inr (Some data)\<close> when it passes.
\<close>

definition load :: "ScanCache \<Rightarrow> error + CacheData option \<Rightarrow> int \<Rightarrow> ScanCache" where
  "load s disk now =
     (if \<not> enabled s then s
      else case disk of
             Inl e \<Rightarrow> s\<lparr> cache := createEmptyCache now \<rparr>
           | Inr None \<Rightarrow> s
           | Inr (Some data) \<Rightarrow> s\<lparr> cache := data \<rparr>)"

section \<open>Rules and contexts (types/ruleTypes)\<close>

record ('ast, 'cfg) RuleContext =
  filePath :: string
  fileContent :: string
  ast :: "'ast option"
  config :: "'cfg option"
  xmlContent :: "string option"
  plistContent :: "string option"

text \<open>
  A rule is an object with an asynchronous \<open>apply\<close>, taken to be a function of the
  context; a rejected promise or a throw is \<open>Inl\<close>. The field \<open>id\<close> is \<open>id_rule\<close> and \<open>apply\<close> is \<open>apply_rule\<close>, as both
  names are taken.
\<close>

record ('ast, 'cfg) Rule =
  id_rule :: string
  description :: string
  severity :: Severity
  fileTypes :: "string list"
  apply_rule :: "('ast, 'cfg) RuleContext \<Rightarrow> error + Finding list"

record ('ast, 'cfg) RuleGroup =
  category :: string
  rules :: "('ast, 'cfg) Rule list"

section \<open>RuleEngine (core/ruleEngine.ts)\<close>

text \<open>
  What the engine imports and this development takes as given: \<open>readFileContent\<close>
  (utils/fileUtils), \<open>parseJSFile\<close> and \<open>parseJsonSafe\<close> (core/astParser),
  \<open>isInDebugContext\<close> (utils/stringUtils) and the SHA-256 digest behind
  \<open>ScanCache.getContentHash\<close>. The file system does not change during a run, so reading
  is a function of the path. Only \<open>readFileContent\<close> can fail: the parsers report a failure
  in their result, so the \<open>catch\<close> of \<open>scanFile\<close> is reached by a failed read only.
  \<^item> \<open>parseJSFile fp content\<close> is \<open>Some a\<close> when the parse result has \<open>success\<close> set and
    carries the tree \<open>a\<close>, and \<open>None\<close> otherwise.
  \<^item> \<open>parseJsonSafe content\<close> is \<open>Some c\<close> when the result \<open>c\<close> passes the test
    \<open>if (config)\<close>, and \<open>None\<close> for every result that does not (\<open>null\<close> after a parse
    failure, and the values JavaScript takes as false).
\<close>

record ('ast, 'cfg) collaborators =
  readFileContent :: "string \<Rightarrow> error + string"
  parseJSFile :: "string \<Rightarrow> string \<Rightarrow> 'ast option"
  parseJsonSafe :: "string \<Rightarrow> 'cfg option"
  isInDebugContext :: "string \<Rightarrow> string option \<Rightarrow> string \<Rightarrow> bool"
  sha256_hex :: "string \<Rightarrow> string"

definition getContentHash :: "('ast, 'cfg) collaborators \<Rightarrow> string \<Rightarrow> string" where
  "getContentHash env content = sha256_hex env content"

record ScanResult =
  findings :: "Finding list"
  scannedFiles :: nat
  skippedFiles :: "nat option"
  cachedFiles :: "nat option"

record ('ast, 'cfg) RuleEngine =
  ruleGroups :: "('ast, 'cfg) RuleGroup list"
  ignoredRules :: "string set"
  skippedFiles :: nat
  excludedPaths :: "string list"
  concurrency :: int
  cache :: "ScanCache option"
  cachedFiles :: nat

definition DEFAULT_CONCURRENCY :: int where
  "DEFAULT_CONCURRENCY = 10"

definition new_RuleEngine :: "('ast, 'cfg) RuleEngine" where
  "new_RuleEngine =
     \<lparr> ruleGroups = [], ignoredRules = {}, skippedFiles = 0, excludedPaths = [],
       concurrency = DEFAULT_CONCURRENCY, cache = None, cachedFiles = 0 \<rparr>"

definition registerRuleGroup :: "('ast, 'cfg) RuleEngine \<Rightarrow> ('ast, 'cfg) RuleGroup \<Rightarrow> ('ast, 'cfg) RuleEngine" where
  "registerRuleGroup eng g = eng\<lparr> ruleGroups := ruleGroups eng @ [g] \<rparr>"

definition setIgnoredRules :: "('ast, 'cfg) RuleEngine \<Rightarrow> string list \<Rightarrow> ('ast, 'cfg) RuleEngine" where
  "setIgnoredRules eng ids = eng\<lparr> ignoredRules := set ids \<rparr>"

definition setConcurrency :: "('ast, 'cfg) RuleEngine \<Rightarrow> int \<Rightarrow> ('ast, 'cfg) RuleEngine" where
  "setConcurrency eng n = eng\<lparr> concurrency := max 1 n \<rparr>"

text \<open>\<open>enableCache\<close> builds a \<open>ScanCache\<close> and loads it.\<close>

definition enableCache ::
  "('ast, 'cfg) RuleEngine \<Rightarrow> string \<Rightarrow> error + CacheData option \<Rightarrow> int \<Rightarrow> ('ast, 'cfg) RuleEngine" where
  "enableCache eng ver disk now = eng\<lparr> cache := Some (load (new_ScanCache ver now) disk now) \<rparr>"

definition disableCache :: "('ast, 'cfg) RuleEngine \<Rightarrow> ('ast, 'cfg) RuleEngine" where
  "disableCache eng = eng\<lparr> cache := None \<rparr>"

definition getAllRules :: "('ast, 'cfg) RuleEngine \<Rightarrow> ('ast, 'cfg) Rule list" where
  "getAllRules eng =
     filter (\<lambda>rule. id_rule rule \<notin> ignoredRules eng) (concat (map rules (ruleGroups eng)))"

text \<open>\<open>String.prototype.endsWith\<close>.\<close>

definition endsWith :: "string \<Rightarrow> string \<Rightarrow> bool" where
  "endsWith s t = (length t \<le> length s \<and> drop (length s - length t) s = t)"

definition getApplicableRules :: "('ast, 'cfg) RuleEngine \<Rightarrow> string \<Rightarrow> ('ast, 'cfg) Rule list" where
  "getApplicableRules eng fp =
     filter (\<lambda>rule. list_ex (\<lambda>type. endsWith fp type) (fileTypes rule)) (getAllRules eng)"

text \<open>
  The test \<open>filePath.match(/\.(js|jsx|ts|tsx)$/)\<close>: without the \<open>m\<close> flag \<open>$\<close> is the end
  of the string, so the pattern asks for one of four suffixes.
\<close>

definition matches_js :: "string \<Rightarrow> bool" where
  "matches_js fp =
     (endsWith fp ''.js'' \<or> endsWith fp ''.jsx'' \<or> endsWith fp ''.ts'' \<or> endsWith fp ''.tsx'')"

definition prepareContext ::
  "('ast, 'cfg) collaborators \<Rightarrow> string \<Rightarrow> string \<Rightarrow> ('ast, 'cfg) RuleContext" where
  "prepareContext env fp content =
     (let context = \<lparr> filePath = fp, fileContent = content, ast = None, config = None,
                       xmlContent = None, plistContent = None \<rparr>
      in if matches_js fp then
           (case parseJSFile env fp content of
              Some a \<Rightarrow> context\<lparr> ast := Some a \<rparr>
            | None \<Rightarrow> context)
         else if endsWith fp ''.json'' then
           (case parseJsonSafe env content of
              Some c \<Rightarrow> context\<lparr> config := Some c \<rparr>
            | None \<Rightarrow> context)
         else if endsWith fp ''.xml'' then context\<lparr> xmlContent := Some content \<rparr>
         else if endsWith fp ''.plist'' then context\<lparr> plistContent := Some content \<rparr>
         else context)"

definition enrichFindingsWithDebugContext ::
  "('ast, 'cfg) collaborators \<Rightarrow> Finding list \<Rightarrow> string \<Rightarrow> Finding list" where
  "enrichFindingsWithDebugContext env fs content =
     filter (\<lambda>finding. \<not> isInDebugContext env content (snippet finding) (Finding.filePath finding)) fs"

text \<open>
  The loop of \<open>scanFileContent\<close> over the applicable rules, with the array \<open>findings\<close> as
  accumulator: a rule that returns has its findings pushed, a rule that throws is caught
  and the loop goes on.
\<close>

fun apply_rules ::
  "('ast, 'cfg) Rule list \<Rightarrow> ('ast, 'cfg) RuleContext \<Rightarrow> Finding list \<Rightarrow> Finding list" where
  "apply_rules [] context fs = fs"
| "apply_rules (rule # rest) context fs =
     (case apply_rule rule context of
        Inr ruleFindings \<Rightarrow> apply_rules rest context (fs @ ruleFindings)
      | Inl e \<Rightarrow> apply_rules rest context fs)"

definition scanFileContent ::
  "('ast, 'cfg) collaborators \<Rightarrow> ('ast, 'cfg) RuleEngine \<Rightarrow> string \<Rightarrow> string \<Rightarrow> Finding list" where
  "scanFileContent env eng fp content =
     (let context = prepareContext env fp content;
          applicableRules = getApplicableRules eng fp
      in enrichFindingsWithDebugContext env (apply_rules applicableRules context []) content)"

subsection \<open>One file: \<open>scanFile\<close>\<close>

text \<open>
  \<open>scanFile\<close> is asynchronous. It touches the engine's state (the cache and the two
  counters) in two synchronous stretches, with other tasks free to run in between:
  \<^item> after \<open>await readFileContent\<close>: the \<open>catch\<close> branch for a failed read (which counts
    the file, reads the thrown \<open>Error\<close> for an optional warning and returns no findings),
    or the cache check, which either returns the cached findings or starts
    \<open>scanFileContent\<close>;
  \<^item> after \<open>await this.scanFileContent\<close>: the write to the cache and the return.
\<close>

text \<open>
  The first stretch: \<open>Inl\<close> when \<open>scanFile\<close> returns at once (nothing for a failed read,
  the cached findings on a hit), \<open>Inr\<close> with the content when it goes on to scan.
\<close>

definition scanFile_check ::
  "('ast, 'cfg) collaborators \<Rightarrow> ('ast, 'cfg) RuleEngine \<Rightarrow> string \<Rightarrow>
     (Finding list + string) \<times> ('ast, 'cfg) RuleEngine" where
  "scanFile_check env eng fp =
     (case readFileContent env fp of
        Inl e \<Rightarrow> (Inl [], eng\<lparr> skippedFiles := skippedFiles eng + 1 \<rparr>)
      | Inr content \<Rightarrow>
          (case cache eng of
             Some c \<Rightarrow>
               (let contentHash = getContentHash env content
                in if isValid c fp contentHash then
                     (case getFindings c fp of
                        Some cachedFindings \<Rightarrow>
                          (Inl cachedFindings, eng\<lparr> cachedFiles := cachedFiles eng + 1 \<rparr>)
                      | None \<Rightarrow> (Inr content, eng))
                   else (Inr content, eng))
           | None \<Rightarrow> (Inr content, eng)))"

text \<open>
  The second stretch. \<open>scanFileContent\<close> reads the registered rules and the ignore set
  only, which no task changes, so it can be taken to run here as a whole.
\<close>

definition scanFile_store ::
  "('ast, 'cfg) collaborators \<Rightarrow> ('ast, 'cfg) RuleEngine \<Rightarrow> string \<Rightarrow> string \<Rightarrow> int \<Rightarrow>
     Finding list \<times> ('ast, 'cfg) RuleEngine" where
  "scanFile_store env eng fp content now =
     (let fs = scanFileContent env eng fp content
      in case cache eng of
           Some c \<Rightarrow> (fs, eng\<lparr> cache := Some (set_entry c fp (getContentHash env content) fs now) \<rparr>)
         | None \<Rightarrow> (fs, eng))"

text \<open>\<open>scanFile\<close> run alone, with nothing in between its two stretches.\<close>

definition scanFile ::
  "('ast, 'cfg) collaborators \<Rightarrow> ('ast, 'cfg) RuleEngine \<Rightarrow> string \<Rightarrow> int \<Rightarrow>
     Finding list \<times> ('ast, 'cfg) RuleEngine" where
  "scanFile env eng fp now =
     (case scanFile_check env eng fp of
        (Inl fs, eng') \<Rightarrow> (fs, eng')
      | (Inr content, eng') \<Rightarrow> scanFile_store env eng' fp content now)"

subsection \<open>All files: \<open>runRulesOnFiles\<close>\<close>

text \<open>
  \<open>runRulesOnFiles\<close> maps every path to a task under \<open>pLimit(this.concurrency)\<close> and
  awaits \<open>Promise.all\<close>. JavaScript runs one synchronous stretch at a time; which task
  goes next is decided by the limiter and by the order in which reads and scans settle.
  A schedule is that order: the list of (task index, clock reading) of the stretches run.
  Every order the limiter can produce is a schedule, so what holds for all schedules
  holds for every concurrency bound.

  A task is where one call of the limited function stands: not yet past the read, waiting
  for \<open>scanFileContent\<close> on the content it read, returned from \<open>scanFile\<close> with its
  findings, or finished (\<open>completed++\<close> and the progress callback done). \<open>progress\<close>
  records the calls of the progress callback.
\<close>

datatype task = Pending | Scanning string | Returned "Finding list" | Done "Finding list"

record ('ast, 'cfg) run_state =
  engine :: "('ast, 'cfg) RuleEngine"
  tasks :: "task list"
  completed :: nat
  progress :: "(nat \<times> nat) list"

definition step ::
  "('ast, 'cfg) collaborators \<Rightarrow> string list \<Rightarrow> nat \<times> int \<Rightarrow> ('ast, 'cfg) run_state \<Rightarrow>
     ('ast, 'cfg) run_state" where
  "step env filePaths ev st =
     (let i = fst ev; now = snd ev
      in if i < length (tasks st) then
           (case tasks st ! i of
              Pending \<Rightarrow>
                (let r = scanFile_check env (engine st) (filePaths ! i)
                 in st\<lparr> engine := snd r,
                        tasks := (tasks st)[i := (case fst r of
                                                    Inl fs \<Rightarrow> Returned fs
                                                  | Inr content \<Rightarrow> Scanning content)] \<rparr>)
            | Scanning content \<Rightarrow>
                (let r = scanFile_store env (engine st) (filePaths ! i) content now
                 in st\<lparr> engine := snd r, tasks := (tasks st)[i := Returned (fst r)] \<rparr>)
            | Returned fs \<Rightarrow>
                st\<lparr> tasks := (tasks st)[i := Done fs],
                    completed := completed st + 1,
                    progress := progress st @ [(completed st + 1, length filePaths)] \<rparr>
            | Done fs \<Rightarrow> st)
         else st)"

fun is_Done :: "task \<Rightarrow> bool" where
  "is_Done (Done fs) = True"
| "is_Done t = False"

fun result_of :: "task \<Rightarrow> Finding list" where
  "result_of (Done fs) = fs"
| "result_of (Returned fs) = fs"
| "result_of t = []"

definition run_tasks ::
  "('ast, 'cfg) collaborators \<Rightarrow> string list \<Rightarrow> (nat \<times> int) list \<Rightarrow> ('ast, 'cfg) run_state \<Rightarrow>
     ('ast, 'cfg) run_state" where
  "run_tasks env filePaths schedule st = foldl (\<lambda>st ev. step env filePaths ev st) st schedule"

text \<open>
  \<open>Promise.all\<close> settles once every task has finished and gives the results by position;
  \<open>results.flat()\<close> concatenates them. A schedule that leaves a task unfinished gives
  no result (\<open>None\<close>). \<open>saveCache\<close> after the scan writes the cache to the disk and
  clears its dirty flag; the result does not depend on it.
\<close>

definition runRulesOnFiles ::
  "('ast, 'cfg) collaborators \<Rightarrow> ('ast, 'cfg) RuleEngine \<Rightarrow> string list \<Rightarrow> (nat \<times> int) list \<Rightarrow>
     ScanResult option" where
  "runRulesOnFiles env eng filePaths schedule =
     (let totalFiles = length filePaths;
          st = run_tasks env filePaths schedule
                 \<lparr> engine = eng\<lparr> skippedFiles := 0, cachedFiles := 0 \<rparr>,
                   tasks = replicate totalFiles Pending, completed = 0, progress = [] \<rparr>
      in if list_all is_Done (tasks st) then
           Some \<lparr> findings = concat (map result_of (tasks st)),
                  scannedFiles = totalFiles,
                  skippedFiles =
                    (if skippedFiles (engine st) > 0 then Some (skippedFiles (engine st)) else None),
                  cachedFiles =
                    (if cachedFiles (engine st) > 0 then Some (cachedFiles (engine st)) else None) \<rparr>
         else None)"

section \<open>Auxiliary definitions\<close>

subsection \<open>For the cache\<close>

text \<open>
  What \<open>prune\<close> is to remove: an entry whose path is absent from \<open>existingFiles\<close> or whose
  timestamp is older than the cutoff.
\<close>

definition stale :: "string set \<Rightarrow> int \<Rightarrow> string \<times> CacheEntry \<Rightarrow> bool" where
  "stale existingFiles cutoffTime = (\<lambda>(fp, entry). fp \<notin> existingFiles \<or> timestamp entry < cutoffTime)"

text \<open>A cache with entries for \<open>/a\<close> and \<open>/b\<close>, both written at time 1000.\<close>

definition cache_ab :: ScanCache where
  "cache_ab =
     set_entry (set_entry (new_ScanCache ''1.0.0'' 1000) ''/a'' ''h1'' [] 1000) ''/b'' ''h2'' [] 1000"

definition cache_one :: ScanCache where
  "cache_one = set_entry (new_ScanCache ''1.0.0'' 1000) ''/a'' ''h1'' [] 1000"

definition cache_off :: ScanCache where
  "cache_off = setEnabled (set_entry (new_ScanCache ''1.0.0'' 1000) ''/a'' ''h1'' [] 1000) False"

definition finding_R1 :: Finding where
  "finding_R1 =
     \<lparr> ruleId = ''R1'', description = ''d'', severity = HIGH, filePath = ''/app.js'',
       line = None, snippet = None, suggestion = None \<rparr>"

text \<open>A cache of version 1.0.0 holding an entry written by version 0.9.0.\<close>

definition stale_cache :: ScanCache where
  "stale_cache =
     \<lparr> ScanCache.cache = \<lparr> files = [(''/app.js'',
                   \<lparr> hash = ''old'', findings = [finding_R1], timestamp = 1, version = ''0.9.0'' \<rparr>)],
                 createdAt = 0, updatedAt = 0 \<rparr>,
       version = ''1.0.0'', isDirty = False, enabled = True \<rparr>"

subsection \<open>For the rule engine\<close>

text \<open>What one rule adds to the findings of a file: its result, or nothing when it throws.\<close>

definition rule_contribution :: "('ast, 'cfg) RuleContext \<Rightarrow> ('ast, 'cfg) Rule \<Rightarrow> Finding list" where
  "rule_contribution context rule = (case apply_rule rule context of Inl e \<Rightarrow> [] | Inr fs \<Rightarrow> fs)"

text \<open>
  The findings of one file, read off the engine as it is when the run starts: nothing for
  an unreadable file, the cached findings for a file with a valid entry, the scan's
  findings otherwise.
\<close>

definition file_findings ::
  "('ast, 'cfg) collaborators \<Rightarrow> ('ast, 'cfg) RuleEngine \<Rightarrow> string \<Rightarrow> Finding list" where
  "file_findings env eng fp =
     (case readFileContent env fp of
        Inl e \<Rightarrow> []
      | Inr content \<Rightarrow>
          (case cache eng of
             None \<Rightarrow> scanFileContent env eng fp content
           | Some c \<Rightarrow>
               if isValid c fp (getContentHash env content)
               then (case getFindings c fp of
                       Some fs \<Rightarrow> fs
                     | None \<Rightarrow> scanFileContent env eng fp content)
               else scanFileContent env eng fp content))"

text \<open>How far a task is.\<close>

fun phase :: "task \<Rightarrow> nat" where
  "phase Pending = 0"
| "phase (Scanning content) = 1"
| "phase (Returned fs) = 2"
| "phase (Done fs) = 3"

text \<open>
  The cache \<open>c\<close> in the middle of a run that started with the cache \<open>c0\<close>: the flag and the
  version are those of \<open>c0\<close>; for a readable file, an entry that was valid at the start is
  still the same entry, and an entry that has become valid since holds the scan's findings.
\<close>

definition cache_ok ::
  "('ast, 'cfg) collaborators \<Rightarrow> ('ast, 'cfg) RuleEngine \<Rightarrow> ScanCache \<Rightarrow> ScanCache \<Rightarrow> bool" where
  "cache_ok env eng0 c0 c \<longleftrightarrow>
     enabled c = enabled c0 \<and> version c = version c0 \<and>
     (\<forall>fp content. readFileContent env fp = Inr content \<longrightarrow>
        (isValid c0 fp (getContentHash env content) \<longrightarrow>
           map_of (files (ScanCache.cache c)) fp = map_of (files (ScanCache.cache c0)) fp) \<and>
        (\<not> isValid c0 fp (getContentHash env content) \<longrightarrow>
           isValid c fp (getContentHash env content) \<longrightarrow>
           getFindings c fp = Some (scanFileContent env eng0 fp content)))"

definition caches_ok ::
  "('ast, 'cfg) collaborators \<Rightarrow> ('ast, 'cfg) RuleEngine \<Rightarrow> ('ast, 'cfg) RuleEngine \<Rightarrow> bool" where
  "caches_ok env eng0 eng \<longleftrightarrow>
     (case cache eng0 of
        None \<Rightarrow> cache eng = None
      | Some c0 \<Rightarrow> (case cache eng of None \<Rightarrow> False | Some c \<Rightarrow> cache_ok env eng0 c0 c))"

text \<open>
  A task in the middle of a run: one that waits for its scan has read its file and missed
  the cache; one that has returned holds the findings of its file.
\<close>

fun task_ok ::
  "('ast, 'cfg) collaborators \<Rightarrow> ('ast, 'cfg) RuleEngine \<Rightarrow> string \<Rightarrow> task \<Rightarrow> bool" where
  "task_ok env eng0 fp Pending = True"
| "task_ok env eng0 fp (Scanning content) =
     (readFileContent env fp = Inr content \<and>
      (case cache eng0 of
         None \<Rightarrow> True
       | Some c0 \<Rightarrow> \<not> isValid c0 fp (getContentHash env content)))"
| "task_ok env eng0 fp (Returned fs) = (fs = file_findings env eng0 fp)"
| "task_ok env eng0 fp (Done fs) = (fs = file_findings env eng0 fp)"

text \<open>The tasks past their read whose file was unreadable.\<close>

definition skipped_tasks :: "('ast, 'cfg) collaborators \<Rightarrow> string list \<Rightarrow> task list \<Rightarrow> nat set" where
  "skipped_tasks env filePaths ts =
     {i. i < length filePaths \<and> ts ! i \<noteq> Pending \<and> isl (readFileContent env (filePaths ! i))}"

definition inv ::
  "('ast, 'cfg) collaborators \<Rightarrow> ('ast, 'cfg) RuleEngine \<Rightarrow> string list \<Rightarrow> ('ast, 'cfg) run_state \<Rightarrow> bool" where
  "inv env eng0 filePaths st \<longleftrightarrow>
     length (tasks st) = length filePaths \<and>
     ruleGroups (engine st) = ruleGroups eng0 \<and>
     ignoredRules (engine st) = ignoredRules eng0 \<and>
     caches_ok env eng0 (engine st) \<and>
     (\<forall>i < length filePaths. task_ok env eng0 (filePaths ! i) (tasks st ! i)) \<and>
     skippedFiles (engine st) = card (skipped_tasks env filePaths (tasks st))"

text \<open>A schedule that gives every task its three stretches.\<close>

definition complete :: "nat \<Rightarrow> (nat \<times> int) list \<Rightarrow> bool" where
  "complete n schedule = list_all (\<lambda>i. 3 \<le> count_list (map fst schedule) i) [0..<n]"

subsection \<open>A small project\<close>

text \<open>
  Two readable source files and nothing else on the disk; a parser that fails on one
  broken text and succeeds otherwise; a JSON parser that fails; no debug context
  anywhere. The digest is the identity, which is enough to tell the two contents apart.
\<close>

definition env_demo :: "(unit, unit) collaborators" where
  "env_demo =
     \<lparr> readFileContent =
         (\<lambda>fp. if fp = ''/src/a.js'' then Inr ''const a = 1;''
               else if fp = ''/src/b.js'' then Inr ''const b = 2;''
               else Inl (Error ''ENOENT'')),
       parseJSFile = (\<lambda>fp content. if content = ''const = ;'' then None else Some ()),
       parseJsonSafe = (\<lambda>content. None),
       isInDebugContext = (\<lambda>code snip fp. False),
       sha256_hex = (\<lambda>content. content) \<rparr>"

definition finding_of :: "string \<Rightarrow> Severity \<Rightarrow> string \<Rightarrow> Finding" where
  "finding_of rid sev fp =
     \<lparr> ruleId = rid, description = ''found'', severity = sev, filePath = fp,
       line = None, snippet = None, suggestion = None \<rparr>"

text \<open>Three rules for source files: two that report the file, and between them one that throws.\<close>

definition rule_high :: "(unit, unit) Rule" where
  "rule_high =
     \<lparr> id_rule = ''HIGH_RULE'', description = ''High severity'', severity = HIGH,
       fileTypes = [''.js'', ''.ts''],
       apply_rule = (\<lambda>context. Inr [finding_of ''HIGH_RULE'' HIGH (filePath context)]) \<rparr>"

definition rule_throws :: "(unit, unit) Rule" where
  "rule_throws =
     \<lparr> id_rule = ''BROKEN_RULE'', description = ''Always throws'', severity = MEDIUM,
       fileTypes = [''.js'', ''.ts''],
       apply_rule = (\<lambda>context. Inl (Error ''boom'')) \<rparr>"

definition rule_low :: "(unit, unit) Rule" where
  "rule_low =
     \<lparr> id_rule = ''LOW_RULE'', description = ''Low severity'', severity = LOW,
       fileTypes = [''.js'', ''.ts''],
       apply_rule = (\<lambda>context. Inr [finding_of ''LOW_RULE'' LOW (filePath context)]) \<rparr>"

definition engine_demo :: "(unit, unit) RuleEngine" where
  "engine_demo =
     registerRuleGroup new_RuleEngine \<lparr> category = ''STORAGE'', rules = [rule_high, rule_throws, rule_low] \<rparr>"

text \<open>A schedule in which the second of two tasks does every stretch before the first.\<close>

definition schedule_second_first :: "(nat \<times> int) list" where
  "schedule_second_first = [(1, 10), (0, 11), (1, 12), (1, 13), (0, 14), (0, 15)]"

definition schedule_in_order :: "(nat \<times> int) list" where
  "schedule_in_order = [(0, 10), (0, 11), (0, 12), (1, 13), (1, 14), (1, 15)]"

definition schedule_three :: "(nat \<times> int) list" where
  "schedule_three =
     [(0, 10), (0, 11), (0, 12), (1, 13), (1, 14), (1, 15), (2, 16), (2, 17), (2, 18)]"

text \<open>How many of the four payload fields of a context are populated.\<close>

definition populated_payloads :: "('ast, 'cfg) RuleContext \<Rightarrow> nat" where
  "populated_payloads context =
     length (filter (\<lambda>b. b)
       [ast context \<noteq> None, config context \<noteq> None,
        xmlContent context \<noteq> None, plistContent context \<noteq> None])"

section \<open>The cache\<close>

subsection \<open>Queries after \<open>set\<close>\<close>

text \<open>
  C6. On an enabled cache, after \<open>set(path, hash, findings)\<close> the query \<open>isValid(path, hash)\<close>
  is true, the entry carries the running version, and \<open>getFindings(path)\<close> gives the stored
  findings. On an enabled cache \<open>isValid(path, h)\<close> is true exactly when an entry exists
  for the path whose hash is \<open>h\<close> and whose version is the running version.
\<close>

theorem set_then_isValid:
  assumes "enabled s"
  shows "isValid (set_entry s fp h fs now) fp h
       \<and> getFindings (set_entry s fp h fs now) fp = Some fs
       \<and> map_of (files (ScanCache.cache (set_entry s fp h fs now))) fp =
           Some \<lparr> hash = h, findings = fs, timestamp = now, version = version s \<rparr>
       \<and> isDirty (set_entry s fp h fs now)
       \<and> (isValid s fp' h' \<longleftrightarrow>
            (\<exists>entry. map_of (files (ScanCache.cache s)) fp' = Some entry \<and> hash entry = h'
                     \<and> CacheEntry.version entry = version s))"
  using assms
  by (auto simp: isValid_def getFindings_def set_entry_def AList.update_conv' split: option.splits)

theorem set_then_isValid_witness:
  "enabled (new_ScanCache ''1.0.0'' 5)
   \<and> isValid (set_entry (new_ScanCache ''1.0.0'' 5) ''/test/file.js'' ''abc'' [] 7) ''/test/file.js'' ''abc''
   \<and> getFindings (set_entry (new_ScanCache ''1.0.0'' 5) ''/test/file.js'' ''abc'' [] 7) ''/test/file.js'' = Some []
   \<and> \<not> isValid (new_ScanCache ''1.0.0'' 5) ''/test/file.js'' ''abc''"
proof -
  have e: "enabled (new_ScanCache ''1.0.0'' 5)" by (simp add: new_ScanCache_def)
  show ?thesis
    using set_then_isValid[OF e, of "''/test/file.js''" "''abc''" "[]" 7 "''/test/file.js''" "''abc''"]
    by (simp add: new_ScanCache_def createEmptyCache_def)
qed

subsection \<open>\<open>getFindings\<close> does not validate\<close>

text \<open>
  C10. For a path with an entry in an enabled cache, \<open>getFindings\<close> returns the entry's
  findings whatever the entry's hash and version are; only \<open>isValid\<close> compares the hash
  with the content fingerprint and the version with the running version.
\<close>

theorem getFindings_ignores_hash_and_version:
  assumes "enabled s" and "map_of (files (ScanCache.cache s)) fp = Some entry"
  shows "getFindings s fp = Some (CacheEntry.findings entry)
       \<and> (isValid s fp h \<longleftrightarrow> hash entry = h \<and> CacheEntry.version entry = version s)"
  using assms by (auto simp: getFindings_def isValid_def)

theorem getFindings_ignores_hash_and_version_witness:
  "enabled stale_cache
   \<and> getFindings stale_cache ''/app.js'' = Some [finding_R1]
   \<and> \<not> isValid stale_cache ''/app.js'' ''new''
   \<and> \<not> isValid stale_cache ''/app.js'' ''old''"
proof -
  have e: "enabled stale_cache" by (simp add: stale_cache_def)
  have m: "map_of (files (ScanCache.cache stale_cache)) ''/app.js'' =
      Some \<lparr> hash = ''old'', findings = [finding_R1], timestamp = 1, version = ''0.9.0'' \<rparr>"
    by (simp add: stale_cache_def)
  show ?thesis
    using getFindings_ignores_hash_and_version[OF e m, of "''new''"]
          getFindings_ignores_hash_and_version[OF e m, of "''old''"] e
    by (simp add: stale_cache_def)
qed

subsection \<open>\<open>prune\<close>\<close>

lemma delete_mid:
  assumes "k \<notin> fst ` set pre" and "k \<notin> fst ` set rest"
  shows "AList.delete k (pre @ (k, e) # rest) = pre @ rest"
proof -
  have "AList.delete k (pre @ (k, e) # rest) = AList.delete k pre @ AList.delete k rest"
    by (simp add: AList.delete_eq)
  then show ?thesis using assms by simp
qed

lemma map_of_mid:
  "k \<notin> fst ` set pre \<Longrightarrow> map_of (pre @ (k, e) # rest) k = Some e"
  by (induction pre) auto

text \<open>
  The loop, started on the keys of a suffix \<open>rest\<close> of the entries: the entries before
  it stay, the stale ones of \<open>rest\<close> go, and the counter grows by their number.
\<close>

lemma prune_loop_filter:
  "distinct (map fst (pre @ rest)) \<Longrightarrow> files (ScanCache.cache s) = pre @ rest \<Longrightarrow>
   prune_loop (map fst rest) ex cutoff (s, n) =
     Inr (s\<lparr> ScanCache.cache := (ScanCache.cache s)\<lparr> files := pre @ filter (\<lambda>x. \<not> stale ex cutoff x) rest \<rparr>,
             isDirty := isDirty s \<or> (\<exists>x \<in> set rest. stale ex cutoff x) \<rparr>,
          n + length (filter (stale ex cutoff) rest))"
proof (induction rest arbitrary: pre s n)
  case Nil
  then show ?case by simp
next
  case (Cons x rest)
  obtain k e where x: "x = (k, e)" by (cases x)
  from Cons.prems x have kpre: "k \<notin> fst ` set pre" and krest: "k \<notin> fst ` set rest"
    by auto
  have lk: "map_of (files (ScanCache.cache s)) k = Some e"
    using Cons.prems(2) x map_of_mid[OF kpre] by simp
  have del: "AList.delete k (files (ScanCache.cache s)) = pre @ rest"
    using Cons.prems(2) x kpre krest by (simp add: delete_mid)
  show ?case
  proof (cases "stale ex cutoff (k, e)")
    case True
    let ?s' = "s\<lparr> ScanCache.cache := (ScanCache.cache s)\<lparr> files := pre @ rest \<rparr>, isDirty := True \<rparr>"
    have d: "distinct (map fst (pre @ rest))" using Cons.prems(1) by auto
    have step: "prune_loop (map fst (x # rest)) ex cutoff (s, n) =
                prune_loop (map fst rest) ex cutoff (?s', n + 1)"
      using True lk del x by (auto simp: stale_def Let_def)
    show ?thesis
      unfolding step using Cons.IH[OF d, of ?s' "n + 1"] True x by simp
  next
    case False
    have d: "distinct (map fst ((pre @ [x]) @ rest))" using Cons.prems(1) by simp
    have f: "files (ScanCache.cache s) = (pre @ [x]) @ rest" using Cons.prems(2) by simp
    have step: "prune_loop (map fst (x # rest)) ex cutoff (s, n) =
                prune_loop (map fst rest) ex cutoff (s, n)"
      using False lk x by (auto simp: stale_def Let_def)
    show ?thesis
      unfolding step using Cons.IH[OF d f, of n] False x by simp
  qed
qed

lemma prune_Inr:
  assumes "distinct (map fst (files (ScanCache.cache s)))"
  shows "\<exists>s' n. prune s ex m now = Inr (s', n) \<and> enabled s' = enabled s \<and> version s' = version s"
  using prune_loop_filter[of "[]" "files (ScanCache.cache s)" s, simplified, OF assms]
  by (simp add: prune_def Let_def)

text \<open>
  C7. \<open>prune(existingFiles, maxAgeMs)\<close> removes exactly the entries whose path is absent
  from \<open>existingFiles\<close> or whose timestamp is older than \<open>now - maxAgeMs\<close>, leaves every
  other entry as it is and in place, and returns the number of removed entries. The cache
  is marked dirty when something was removed. The cache object has each path once.
\<close>

theorem prune_removes_exactly_stale:
  assumes "distinct (map fst (files (ScanCache.cache s)))"
  shows "prune s existingFiles maxAgeMs now =
           (let cutoffTime = now - (case maxAgeMs of None \<Rightarrow> 7 * 24 * 60 * 60 * 1000 | Some m \<Rightarrow> m);
                removed = filter (stale existingFiles cutoffTime) (files (ScanCache.cache s))
            in Inr (s\<lparr> ScanCache.cache := (ScanCache.cache s)\<lparr> files :=
                          filter (\<lambda>x. \<not> stale existingFiles cutoffTime x) (files (ScanCache.cache s)) \<rparr>,
                      isDirty := isDirty s \<or> 0 < length removed \<rparr>,
                    length removed))"
proof -
  have ex: "(\<exists>x \<in> set xs. P x) \<longleftrightarrow> 0 < length (filter P xs)"
    for P and xs :: "(string \<times> CacheEntry) list"
    by (simp add: filter_empty_conv)
  show ?thesis
    using prune_loop_filter[of "[]" "files (ScanCache.cache s)" s, simplified, OF assms]
    by (simp add: prune_def Let_def ex)
qed

text \<open>
  The instance of the specification: with entries for \<open>/a\<close> and \<open>/b\<close>, both fresh,
  \<open>prune({"/a"})\<close> removes exactly \<open>/b\<close> and returns 1.
\<close>

theorem prune_removes_exactly_stale_witness:
  "distinct (map fst (files (ScanCache.cache cache_ab)))
   \<and> map fst (files (ScanCache.cache cache_ab)) = [''/a'', ''/b'']
   \<and> prune cache_ab {''/a''} None 2000 =
       Inr (cache_ab\<lparr> ScanCache.cache := (ScanCache.cache cache_ab)\<lparr> files :=
              [(''/a'', \<lparr> hash = ''h1'', findings = [], timestamp = 1000, version = ''1.0.0'' \<rparr>)] \<rparr> \<rparr>, 1)"
proof -
  have d: "distinct (map fst (files (ScanCache.cache cache_ab)))"
    by (simp add: cache_ab_def set_entry_def new_ScanCache_def createEmptyCache_def)
  show ?thesis
    using prune_removes_exactly_stale[OF d, of "{''/a''}" None 2000]
    by (simp add: cache_ab_def set_entry_def new_ScanCache_def createEmptyCache_def stale_def Let_def)
qed

subsection \<open>A disabled cache\<close>

text \<open>
  C3, as the code has it. After \<open>setEnabled(false)\<close> every query misses: \<open>isValid\<close> is
  false and \<open>getFindings\<close> is \<open>null\<close> for every path and hash, also after a later \<open>set\<close>,
  \<open>remove\<close>, \<open>clear\<close> or \<open>prune\<close>. \<open>set\<close> leaves the state as it is. \<open>remove\<close>,
  \<open>clear\<close> and \<open>prune\<close> do not read the flag; none of the operations throws.
\<close>

theorem disabled_cache_misses_and_set_noop:
  assumes "distinct (map fst (files (ScanCache.cache s)))"
  shows "\<not> isValid (setEnabled s False) fp h
       \<and> getFindings (setEnabled s False) fp = None
       \<and> set_entry (setEnabled s False) fp h fs now = setEnabled s False
       \<and> \<not> isValid (remove (setEnabled s False) fp') fp h
       \<and> getFindings (remove (setEnabled s False) fp') fp = None
       \<and> \<not> isValid (clear (setEnabled s False) now) fp h
       \<and> getFindings (clear (setEnabled s False) now) fp = None
       \<and> (\<exists>s' n. prune (setEnabled s False) existingFiles maxAgeMs now = Inr (s', n)
                 \<and> \<not> isValid s' fp h \<and> getFindings s' fp = None)"
proof -
  have d: "distinct (map fst (files (ScanCache.cache (setEnabled s False))))"
    using assms by (simp add: setEnabled_def)
  have q: "\<not> enabled t \<Longrightarrow> \<not> isValid t fp h \<and> getFindings t fp = None" for t
    by (simp add: isValid_def getFindings_def)
  have r: "\<not> enabled (remove (setEnabled s False) fp')"
    by (simp add: remove_def setEnabled_def split: option.splits)
  have c: "\<not> enabled (clear (setEnabled s False) now)"
    by (simp add: clear_def setEnabled_def)
  have e: "\<not> enabled (setEnabled s False)"
    by (simp add: setEnabled_def)
  obtain s' n where p: "prune (setEnabled s False) existingFiles maxAgeMs now = Inr (s', n)"
    and "enabled s' = enabled (setEnabled s False)"
    using prune_Inr[OF d] by blast
  then have "\<not> enabled s'" using e by simp
  then show ?thesis
    using q[OF e] q[OF r] q[OF c] q[of s'] p e by (simp add: set_entry_def)
qed

theorem disabled_cache_misses_and_set_noop_witness:
  "distinct (map fst (files (ScanCache.cache cache_one)))
   \<and> isValid cache_one ''/a'' ''h1''
   \<and> \<not> isValid (setEnabled cache_one False) ''/a'' ''h1''
   \<and> getFindings (setEnabled cache_one False) ''/a'' = None
   \<and> set_entry (setEnabled cache_one False) ''/a'' ''h2'' [] 2000 = setEnabled cache_one False"
proof -
  have d: "distinct (map fst (files (ScanCache.cache cache_one)))"
    by (simp add: cache_one_def set_entry_def new_ScanCache_def createEmptyCache_def)
  have v: "isValid cache_one ''/a'' ''h1''"
    by (simp add: cache_one_def set_entry_def new_ScanCache_def createEmptyCache_def isValid_def)
  show ?thesis
    using disabled_cache_misses_and_set_noop[OF d, of "''/a''" "''h1''"]
      disabled_cache_misses_and_set_noop[OF d, of "''/a''" "''h2''" "[]" 2000] d v
    by simp
qed

text \<open>
  On a disabled cache holding one entry, \<open>remove\<close>, \<open>clear\<close> and \<open>prune\<close> each change the
  in-memory state.
\<close>

theorem disabled_mutations_change_state:
  "\<not> isEnabled cache_off
   \<and> getStats cache_off = 1
   \<and> remove cache_off ''/a'' \<noteq> cache_off \<and> getStats (remove cache_off ''/a'') = 0
   \<and> clear cache_off 2000 \<noteq> cache_off \<and> getStats (clear cache_off 2000) = 0
   \<and> prune cache_off {} None 2000 \<noteq> Inr (cache_off, 0)
   \<and> prune cache_off {} None 2000 =
        Inr (cache_off\<lparr> ScanCache.cache := (ScanCache.cache cache_off)\<lparr> files := [] \<rparr>,
                        isDirty := True \<rparr>, 1)"
  by (simp add: cache_off_def setEnabled_def set_entry_def new_ScanCache_def createEmptyCache_def
      isEnabled_def getStats_def remove_def clear_def prune_def Let_def)

section \<open>Runs of the rule engine\<close>

subsection \<open>One file\<close>

lemma apply_rules_concat:
  "apply_rules rs context fs = fs @ concat (map (rule_contribution context) rs)"
  by (induction rs arbitrary: fs) (auto simp: rule_contribution_def split: sum.splits)

lemma scanFileContent_same_rules:
  "ruleGroups eng' = ruleGroups eng \<Longrightarrow> ignoredRules eng' = ignoredRules eng \<Longrightarrow>
   scanFileContent env eng' fp content = scanFileContent env eng fp content"
  by (simp add: scanFileContent_def getApplicableRules_def getAllRules_def)

lemma isValid_getFindings: "isValid c fp h \<Longrightarrow> \<exists>fs. getFindings c fp = Some fs"
  by (simp add: isValid_def getFindings_def split: if_splits option.splits)

lemma scanFile_check_unreadable:
  "readFileContent env fp = Inl e \<Longrightarrow>
   scanFile_check env eng fp = (Inl [], eng\<lparr> skippedFiles := skippedFiles eng + 1 \<rparr>)"
  by (simp add: scanFile_check_def)

lemma scanFile_check_nocache:
  "readFileContent env fp = Inr content \<Longrightarrow> cache eng = None \<Longrightarrow>
   scanFile_check env eng fp = (Inr content, eng)"
  by (simp add: scanFile_check_def)

lemma scanFile_check_miss:
  "readFileContent env fp = Inr content \<Longrightarrow> cache eng = Some c \<Longrightarrow>
   \<not> isValid c fp (getContentHash env content) \<Longrightarrow>
   scanFile_check env eng fp = (Inr content, eng)"
  by (simp add: scanFile_check_def)

lemma scanFile_check_hit:
  "readFileContent env fp = Inr content \<Longrightarrow> cache eng = Some c \<Longrightarrow>
   isValid c fp (getContentHash env content) \<Longrightarrow> getFindings c fp = Some fs \<Longrightarrow>
   scanFile_check env eng fp = (Inl fs, eng\<lparr> cachedFiles := cachedFiles eng + 1 \<rparr>)"
  by (simp add: scanFile_check_def)

lemma scanFile_store_fst:
  "fst (scanFile_store env eng fp content now) = scanFileContent env eng fp content"
  by (simp add: scanFile_store_def Let_def split: option.splits)

lemma scanFile_store_nocache:
  "cache eng = None \<Longrightarrow>
   scanFile_store env eng fp content now = (scanFileContent env eng fp content, eng)"
  by (simp add: scanFile_store_def)

lemma scanFile_store_cache:
  "cache eng = Some c \<Longrightarrow>
   scanFile_store env eng fp content now =
     (scanFileContent env eng fp content,
      eng\<lparr> cache := Some (set_entry c fp (getContentHash env content)
                            (scanFileContent env eng fp content) now) \<rparr>)"
  by (simp add: scanFile_store_def Let_def)

lemma scanFile_fst: "fst (scanFile env eng fp now) = file_findings env eng fp"
proof (cases "readFileContent env fp")
  case (Inl e)
  then show ?thesis
    by (simp add: scanFile_def scanFile_check_unreadable file_findings_def)
next
  case (Inr content)
  show ?thesis
  proof (cases "cache eng")
    case None
    then show ?thesis using Inr
      by (simp add: scanFile_def scanFile_check_nocache file_findings_def scanFile_store_fst)
  next
    case (Some c)
    show ?thesis
    proof (cases "isValid c fp (getContentHash env content)")
      case True
      then obtain fs where "getFindings c fp = Some fs"
        using isValid_getFindings by blast
      then show ?thesis using Inr Some True
        by (simp add: scanFile_def scanFile_check_hit file_findings_def)
    next
      case False
      then show ?thesis using Inr Some
        by (simp add: scanFile_def scanFile_check_miss file_findings_def scanFile_store_fst)
    qed
  qed
qed

lemma file_findings_counters:
  "file_findings env (eng\<lparr> skippedFiles := a, cachedFiles := b \<rparr>) fp = file_findings env eng fp"
proof -
  have "scanFileContent env (eng\<lparr> skippedFiles := a, cachedFiles := b \<rparr>) fp content =
        scanFileContent env eng fp content" for content
    by (rule scanFileContent_same_rules) simp_all
  then show ?thesis
    by (cases "readFileContent env fp"; cases "cache eng")
       (simp_all add: file_findings_def cong: option.case_cong)
qed

subsection \<open>The steps\<close>

lemma step_out: "\<not> fst ev < length (tasks st) \<Longrightarrow> step env fps ev st = st"
  by (simp add: step_def Let_def)

lemma step_Pending:
  "fst ev < length (tasks st) \<Longrightarrow> tasks st ! fst ev = Pending \<Longrightarrow>
   step env fps ev st =
     st\<lparr> engine := snd (scanFile_check env (engine st) (fps ! fst ev)),
         tasks := (tasks st)[fst ev :=
            (case fst (scanFile_check env (engine st) (fps ! fst ev)) of
               Inl fs \<Rightarrow> Returned fs
             | Inr content \<Rightarrow> Scanning content)] \<rparr>"
  by (simp add: step_def Let_def)

lemma step_Scanning:
  "fst ev < length (tasks st) \<Longrightarrow> tasks st ! fst ev = Scanning content \<Longrightarrow>
   step env fps ev st =
     st\<lparr> engine := snd (scanFile_store env (engine st) (fps ! fst ev) content (snd ev)),
         tasks := (tasks st)[fst ev :=
            Returned (fst (scanFile_store env (engine st) (fps ! fst ev) content (snd ev)))] \<rparr>"
  by (simp add: step_def Let_def)

lemma step_Returned:
  "fst ev < length (tasks st) \<Longrightarrow> tasks st ! fst ev = Returned fs \<Longrightarrow>
   step env fps ev st =
     st\<lparr> tasks := (tasks st)[fst ev := Done fs], completed := completed st + 1,
         progress := progress st @ [(completed st + 1, length fps)] \<rparr>"
  by (simp add: step_def Let_def)

lemma step_Done:
  "fst ev < length (tasks st) \<Longrightarrow> tasks st ! fst ev = Done fs \<Longrightarrow> step env fps ev st = st"
  by (simp add: step_def Let_def)

lemma scanFile_check_phase:
  "0 < phase (case fst (scanFile_check env eng fp) of
                Inl fs \<Rightarrow> Returned fs
              | Inr content \<Rightarrow> Scanning content)"
  by (cases "fst (scanFile_check env eng fp)") simp_all

lemma step_length: "length (tasks (step env fps ev st)) = length (tasks st)"
proof (cases "fst ev < length (tasks st)")
  case True
  then show ?thesis
    by (cases "tasks st ! fst ev") (simp_all add: step_Pending step_Scanning step_Returned step_Done)
next
  case False
  then show ?thesis by (simp add: step_out)
qed

lemma step_other: "j \<noteq> fst ev \<Longrightarrow> tasks (step env fps ev st) ! j = tasks st ! j"
proof (cases "fst ev < length (tasks st)")
  case True
  assume "j \<noteq> fst ev"
  with True show ?thesis
    by (cases "tasks st ! fst ev") (simp_all add: step_Pending step_Scanning step_Returned step_Done)
next
  case False
  then show ?thesis by (simp add: step_out)
qed

lemma step_self:
  assumes "fst ev < length (tasks st)"
  shows "min 3 (phase (tasks st ! fst ev) + 1) \<le> phase (tasks (step env fps ev st) ! fst ev)"
proof (cases "tasks st ! fst ev")
  case Pending
  then show ?thesis using assms scanFile_check_phase[of env "engine st" "fps ! fst ev"]
    by (simp add: step_Pending)
next
  case (Scanning content)
  then show ?thesis using assms by (simp add: step_Scanning)
next
  case (Returned fs)
  then show ?thesis using assms by (simp add: step_Returned)
next
  case (Done fs)
  then show ?thesis using assms by (simp add: step_Done)
qed

lemma run_tasks_Nil: "run_tasks env fps [] st = st"
  by (simp add: run_tasks_def)

lemma run_tasks_Cons: "run_tasks env fps (ev # sched) st = run_tasks env fps sched (step env fps ev st)"
  by (simp add: run_tasks_def)

lemma run_tasks_length: "length (tasks (run_tasks env fps sched st)) = length (tasks st)"
  by (induction sched arbitrary: st) (simp_all add: run_tasks_Nil run_tasks_Cons step_length)

lemma run_tasks_phase:
  "j < length (tasks st) \<Longrightarrow>
   min 3 (phase (tasks st ! j) + count_list (map fst sched) j)
     \<le> phase (tasks (run_tasks env fps sched st) ! j)"
proof (induction sched arbitrary: st)
  case Nil
  then show ?case by (simp add: run_tasks_Nil)
next
  case (Cons ev sched)
  have l: "j < length (tasks (step env fps ev st))" using Cons.prems by (simp add: step_length)
  note IH = Cons.IH[OF l]
  show ?case
  proof (cases "fst ev = j")
    case True
    have "min 3 (phase (tasks st ! j) + 1) \<le> phase (tasks (step env fps ev st) ! j)"
      using step_self[of ev st env fps] Cons.prems True by simp
    then show ?thesis using IH True by (simp add: run_tasks_Cons)
  next
    case False
    then have "tasks (step env fps ev st) ! j = tasks st ! j" by (simp add: step_other)
    then show ?thesis using IH False by (simp add: run_tasks_Cons)
  qed
qed

lemma phase_3: "phase t = 3 \<longleftrightarrow> is_Done t"
  by (cases t) simp_all

lemma phase_le_3: "phase t \<le> 3"
  by (cases t) simp_all

lemma complete_all_Done:
  assumes "complete (length (tasks st)) sched"
  shows "list_all is_Done (tasks (run_tasks env fps sched st))"
proof -
  have "is_Done (tasks (run_tasks env fps sched st) ! j)" if "j < length (tasks st)" for j
  proof -
    have "3 \<le> count_list (map fst sched) j"
      using assms that by (simp add: complete_def list_all_iff)
    then have "3 \<le> phase (tasks (run_tasks env fps sched st) ! j)"
      using run_tasks_phase[OF that, of sched env fps] by simp
    then show ?thesis using phase_le_3[of "tasks (run_tasks env fps sched st) ! j"]
      by (simp add: phase_3[symmetric])
  qed
  then show ?thesis
    by (simp add: list_all_length run_tasks_length)
qed

subsection \<open>The cache during a run\<close>

lemma set_entry_enabled: "enabled (set_entry c fp h fs now) = enabled c"
  by (simp add: set_entry_def)

lemma set_entry_version: "version (set_entry c fp h fs now) = version c"
  by (simp add: set_entry_def)

lemma set_entry_lookup_other:
  "fp' \<noteq> fp \<Longrightarrow>
   map_of (files (ScanCache.cache (set_entry c fp h fs now))) fp' = map_of (files (ScanCache.cache c)) fp'"
  by (simp add: set_entry_def AList.update_conv')

lemma set_entry_getFindings_same:
  "enabled c \<Longrightarrow> getFindings (set_entry c fp h fs now) fp = Some fs"
  by (simp add: set_entry_def getFindings_def AList.update_conv')

lemma isValid_enabled: "isValid c fp h \<Longrightarrow> enabled c"
  by (simp add: isValid_def split: if_splits)

lemma isValid_same_entry:
  "enabled c = enabled c0 \<Longrightarrow> version c = version c0 \<Longrightarrow>
   map_of (files (ScanCache.cache c)) fp = map_of (files (ScanCache.cache c0)) fp \<Longrightarrow>
   isValid c fp h = isValid c0 fp h"
  by (simp add: isValid_def cong: option.case_cong)

lemma getFindings_same_entry:
  "enabled c = enabled c0 \<Longrightarrow>
   map_of (files (ScanCache.cache c)) fp = map_of (files (ScanCache.cache c0)) fp \<Longrightarrow>
   getFindings c fp = getFindings c0 fp"
  by (simp add: getFindings_def)

lemma cache_ok_enabled: "cache_ok env eng0 c0 c \<Longrightarrow> enabled c = enabled c0"
  by (simp add: cache_ok_def)

lemma cache_ok_version: "cache_ok env eng0 c0 c \<Longrightarrow> version c = version c0"
  by (simp add: cache_ok_def)

lemma cache_ok_kept:
  "cache_ok env eng0 c0 c \<Longrightarrow> readFileContent env fp = Inr content \<Longrightarrow>
   isValid c0 fp (getContentHash env content) \<Longrightarrow>
   map_of (files (ScanCache.cache c)) fp = map_of (files (ScanCache.cache c0)) fp"
  unfolding cache_ok_def by blast

lemma cache_ok_new:
  "cache_ok env eng0 c0 c \<Longrightarrow> readFileContent env fp = Inr content \<Longrightarrow>
   \<not> isValid c0 fp (getContentHash env content) \<Longrightarrow> isValid c fp (getContentHash env content) \<Longrightarrow>
   getFindings c fp = Some (scanFileContent env eng0 fp content)"
  unfolding cache_ok_def by blast

lemma cache_ok_refl: "cache_ok env eng0 c0 c0"
  by (simp add: cache_ok_def)

lemma cache_ok_miss:
  assumes "cache_ok env eng0 c0 c" and "readFileContent env fp = Inr content"
    and "\<not> isValid c fp (getContentHash env content)"
  shows "\<not> isValid c0 fp (getContentHash env content)"
proof
  assume v: "isValid c0 fp (getContentHash env content)"
  have "map_of (files (ScanCache.cache c)) fp = map_of (files (ScanCache.cache c0)) fp"
    using cache_ok_kept[OF assms(1,2) v] .
  then have "isValid c fp (getContentHash env content) = isValid c0 fp (getContentHash env content)"
    by (rule isValid_same_entry[OF cache_ok_enabled[OF assms(1)] cache_ok_version[OF assms(1)]])
  then have "isValid c fp (getContentHash env content)" using v by simp
  then show False using assms(3) by simp
qed

lemma cache_ok_hit:
  assumes "cache_ok env eng0 c0 c" and "readFileContent env fp = Inr content"
    and "isValid c fp (getContentHash env content)" and "getFindings c fp = Some fs"
    and "cache eng0 = Some c0"
  shows "fs = file_findings env eng0 fp"
proof (cases "isValid c0 fp (getContentHash env content)")
  case True
  have "map_of (files (ScanCache.cache c)) fp = map_of (files (ScanCache.cache c0)) fp"
    using cache_ok_kept[OF assms(1,2) True] .
  then have "getFindings c fp = getFindings c0 fp"
    by (rule getFindings_same_entry[OF cache_ok_enabled[OF assms(1)]])
  then have "getFindings c0 fp = Some fs"
    using assms(4) by simp
  then show ?thesis using True assms(2,5) by (simp add: file_findings_def)
next
  case False
  have "getFindings c fp = Some (scanFileContent env eng0 fp content)"
    using cache_ok_new[OF assms(1,2) False assms(3)] .
  then show ?thesis using False assms(2,4,5) by (simp add: file_findings_def)
qed

lemma cache_ok_set_entry:
  assumes ok: "cache_ok env eng0 c0 c" and rd: "readFileContent env fp = Inr content"
    and nv: "\<not> isValid c0 fp (getContentHash env content)"
  shows "cache_ok env eng0 c0
           (set_entry c fp (getContentHash env content) (scanFileContent env eng0 fp content) now)"
proof (cases "enabled c")
  case False
  then have "set_entry c fp (getContentHash env content) (scanFileContent env eng0 fp content) now = c"
    by (simp add: set_entry_def)
  then show ?thesis using ok by simp
next
  case True
  define c' where "c' = set_entry c fp (getContentHash env content) (scanFileContent env eng0 fp content) now"
  have e: "enabled c' = enabled c" and v: "version c' = version c"
    by (simp_all add: c'_def set_entry_enabled set_entry_version)
  have same: "getFindings c' fp = Some (scanFileContent env eng0 fp content)"
    using True by (simp add: c'_def set_entry_getFindings_same)
  have other: "map_of (files (ScanCache.cache c')) fp' = map_of (files (ScanCache.cache c)) fp'"
    if "fp' \<noteq> fp" for fp'
    using that by (simp add: c'_def set_entry_lookup_other)
  have kept: "map_of (files (ScanCache.cache c')) fp' = map_of (files (ScanCache.cache c0)) fp'"
    if r: "readFileContent env fp' = Inr content'" and iv: "isValid c0 fp' (getContentHash env content')"
    for fp' content'
  proof -
    have "fp' \<noteq> fp" using r rd iv nv by auto
    then show ?thesis using other cache_ok_kept[OF ok r iv] by simp
  qed
  have new: "getFindings c' fp' = Some (scanFileContent env eng0 fp' content')"
    if r: "readFileContent env fp' = Inr content'" and niv: "\<not> isValid c0 fp' (getContentHash env content')"
      and iv': "isValid c' fp' (getContentHash env content')"
    for fp' content'
  proof (cases "fp' = fp")
    case True
    then have "content' = content" using r rd by simp
    then show ?thesis using same True by simp
  next
    case False
    have l: "map_of (files (ScanCache.cache c')) fp' = map_of (files (ScanCache.cache c)) fp'"
      using other[OF False] .
    have "isValid c' fp' (getContentHash env content') = isValid c fp' (getContentHash env content')"
      by (rule isValid_same_entry[OF e v l])
    then have "isValid c fp' (getContentHash env content')" using iv' by simp
    then have "getFindings c fp' = Some (scanFileContent env eng0 fp' content')"
      by (rule cache_ok_new[OF ok r niv])
    moreover have "getFindings c' fp' = getFindings c fp'"
      by (rule getFindings_same_entry[OF e l])
    ultimately show ?thesis by simp
  qed
  have "enabled c' = enabled c0" "version c' = version c0"
    using e v cache_ok_enabled[OF ok] cache_ok_version[OF ok] by simp_all
  then have "cache_ok env eng0 c0 c'"
    unfolding cache_ok_def using kept new by blast
  then show ?thesis by (simp add: c'_def)
qed

subsection \<open>The skipped tasks\<close>

lemma skipped_tasks_finite: "finite (skipped_tasks env fps ts)"
  by (simp add: skipped_tasks_def)

lemma skipped_tasks_same:
  "i < length ts \<Longrightarrow> ts ! i \<noteq> Pending \<Longrightarrow> t \<noteq> Pending \<Longrightarrow>
   skipped_tasks env fps (ts[i := t]) = skipped_tasks env fps ts"
proof -
  assume a: "i < length ts" "ts ! i \<noteq> Pending" "t \<noteq> Pending"
  have "j \<in> skipped_tasks env fps (ts[i := t]) \<longleftrightarrow> j \<in> skipped_tasks env fps ts" for j
    using a by (cases "j = i") (simp_all add: skipped_tasks_def)
  then show ?thesis by blast
qed

lemma skipped_tasks_readable:
  "\<not> isl (readFileContent env (fps ! i)) \<Longrightarrow>
   skipped_tasks env fps (ts[i := t]) = skipped_tasks env fps ts"
proof -
  assume r: "\<not> isl (readFileContent env (fps ! i))"
  have "ts[i := t] ! j = ts ! j" if "j \<noteq> i" for j
    using that by simp
  then show ?thesis using r
    unfolding skipped_tasks_def by (intro Collect_cong) metis
qed

lemma skipped_tasks_unreadable:
  assumes "i < length ts" and "length ts = length fps" and "ts ! i = Pending" and "t \<noteq> Pending"
    and "isl (readFileContent env (fps ! i))"
  shows "card (skipped_tasks env fps (ts[i := t])) = card (skipped_tasks env fps ts) + 1"
proof -
  have "j \<in> skipped_tasks env fps (ts[i := t]) \<longleftrightarrow> j \<in> insert i (skipped_tasks env fps ts)" for j
    using assms by (cases "j = i") (simp_all add: skipped_tasks_def)
  then have "skipped_tasks env fps (ts[i := t]) = insert i (skipped_tasks env fps ts)"
    by blast
  moreover have "i \<notin> skipped_tasks env fps ts"
    using assms(3) by (simp add: skipped_tasks_def)
  ultimately show ?thesis
    by (simp add: skipped_tasks_finite)
qed

subsection \<open>The invariant\<close>

lemma task_ok_update:
  assumes "\<forall>j < n. task_ok env eng0 (fps ! j) (ts ! j)" and "task_ok env eng0 (fps ! i) t"
  shows "\<forall>j < n. task_ok env eng0 (fps ! j) (ts[i := t] ! j)"
proof (intro allI impI)
  fix j assume "j < n"
  then show "task_ok env eng0 (fps ! j) (ts[i := t] ! j)"
    using assms by (cases "j = i"; cases "i < length ts") (simp_all add: list_update_beyond)
qed

lemma inv_update:
  assumes "inv env eng0 fps st"
    and "ruleGroups eng' = ruleGroups eng0" and "ignoredRules eng' = ignoredRules eng0"
    and "caches_ok env eng0 eng'"
    and "task_ok env eng0 (fps ! i) t"
    and "skippedFiles eng' = card (skipped_tasks env fps ((tasks st)[i := t]))"
  shows "inv env eng0 fps (st\<lparr> engine := eng', tasks := (tasks st)[i := t] \<rparr>)"
proof -
  have "\<forall>j < length fps. task_ok env eng0 (fps ! j) (tasks st ! j)"
    using assms(1) by (simp add: inv_def)
  then have "\<forall>j < length fps. task_ok env eng0 (fps ! j) ((tasks st)[i := t] ! j)"
    using assms(5) by (rule task_ok_update)
  then show ?thesis
    using assms by (simp add: inv_def)
qed

lemma caches_ok_skipped:
  "caches_ok env eng0 (eng\<lparr> skippedFiles := a \<rparr>) = caches_ok env eng0 eng"
  by (cases "cache eng0") (simp_all add: caches_ok_def)

lemma caches_ok_cached:
  "caches_ok env eng0 (eng\<lparr> cachedFiles := b \<rparr>) = caches_ok env eng0 eng"
  by (cases "cache eng0") (simp_all add: caches_ok_def)

lemma caches_ok_None:
  "caches_ok env eng0 eng \<Longrightarrow> cache eng = None \<Longrightarrow> cache eng0 = None"
  by (cases "cache eng0") (simp_all add: caches_ok_def)

lemma caches_ok_Some:
  "caches_ok env eng0 eng \<Longrightarrow> cache eng = Some c \<Longrightarrow>
   \<exists>c0. cache eng0 = Some c0 \<and> cache_ok env eng0 c0 c"
  by (cases "cache eng0") (simp_all add: caches_ok_def)

lemma inv_step_Pending:
  assumes i: "inv env eng0 fps st" and lt: "fst ev < length (tasks st)"
    and p: "tasks st ! fst ev = Pending"
  shows "inv env eng0 fps (step env fps ev st)"
proof -
  let ?i = "fst ev" and ?eng = "engine st"
  let ?fp = "fps ! ?i"
  have len: "length (tasks st) = length fps" and rg: "ruleGroups ?eng = ruleGroups eng0"
    and ig: "ignoredRules ?eng = ignoredRules eng0" and co: "caches_ok env eng0 ?eng"
    and sk: "skippedFiles ?eng = card (skipped_tasks env fps (tasks st))"
    using i by (simp_all add: inv_def)
  show ?thesis
  proof (cases "readFileContent env ?fp")
    case (Inl e)
    have chk: "scanFile_check env ?eng ?fp = (Inl [], ?eng\<lparr> skippedFiles := skippedFiles ?eng + 1 \<rparr>)"
      using Inl by (rule scanFile_check_unreadable)
    have t: "task_ok env eng0 ?fp (Returned [])"
      using Inl by (simp add: file_findings_def)
    have c: "card (skipped_tasks env fps ((tasks st)[?i := Returned []])) =
             card (skipped_tasks env fps (tasks st)) + 1"
      using lt len p Inl by (intro skipped_tasks_unreadable) simp_all
    show ?thesis
      unfolding step_Pending[OF lt p] chk fst_conv snd_conv sum.case
      by (rule inv_update[OF i _ _ _ t]) (simp_all add: rg ig co caches_ok_skipped c sk)
  next
    case (Inr content)
    have r: "\<not> isl (readFileContent env ?fp)" using Inr by simp
    have same: "skipped_tasks env fps ((tasks st)[?i := t]) = skipped_tasks env fps (tasks st)" for t
      using r by (rule skipped_tasks_readable)
    show ?thesis
    proof (cases "cache ?eng")
      case None
      have chk: "scanFile_check env ?eng ?fp = (Inr content, ?eng)"
        using Inr None by (rule scanFile_check_nocache)
      have t: "task_ok env eng0 ?fp (Scanning content)"
        using Inr caches_ok_None[OF co None] by simp
      show ?thesis
        unfolding step_Pending[OF lt p] chk fst_conv snd_conv sum.case
        by (rule inv_update[OF i _ _ _ t]) (simp_all add: rg ig co same sk)
    next
      case (Some c)
      then obtain c0 where c0: "cache eng0 = Some c0" and ok: "cache_ok env eng0 c0 c"
        using caches_ok_Some[OF co] by blast
      show ?thesis
      proof (cases "isValid c ?fp (getContentHash env content)")
        case True
        then obtain fs where fs: "getFindings c ?fp = Some fs"
          using isValid_getFindings by blast
        have chk: "scanFile_check env ?eng ?fp = (Inl fs, ?eng\<lparr> cachedFiles := cachedFiles ?eng + 1 \<rparr>)"
          using Inr Some True fs by (rule scanFile_check_hit)
        have t: "task_ok env eng0 ?fp (Returned fs)"
          using cache_ok_hit[OF ok Inr True fs c0] by simp
        show ?thesis
          unfolding step_Pending[OF lt p] chk fst_conv snd_conv sum.case
          by (rule inv_update[OF i _ _ _ t]) (simp_all add: rg ig co caches_ok_cached same sk)
      next
        case False
        have chk: "scanFile_check env ?eng ?fp = (Inr content, ?eng)"
          using Inr Some False by (rule scanFile_check_miss)
        have t: "task_ok env eng0 ?fp (Scanning content)"
          using Inr c0 cache_ok_miss[OF ok Inr False] by simp
        show ?thesis
          unfolding step_Pending[OF lt p] chk fst_conv snd_conv sum.case
          by (rule inv_update[OF i _ _ _ t]) (simp_all add: rg ig co same sk)
      qed
    qed
  qed
qed

lemma inv_step_Scanning:
  assumes i: "inv env eng0 fps st" and lt: "fst ev < length (tasks st)"
    and p: "tasks st ! fst ev = Scanning content"
  shows "inv env eng0 fps (step env fps ev st)"
proof -
  let ?i = "fst ev" and ?eng = "engine st"
  let ?fp = "fps ! ?i"
  have len: "length (tasks st) = length fps" and rg: "ruleGroups ?eng = ruleGroups eng0"
    and ig: "ignoredRules ?eng = ignoredRules eng0" and co: "caches_ok env eng0 ?eng"
    and sk: "skippedFiles ?eng = card (skipped_tasks env fps (tasks st))"
    and tk: "task_ok env eng0 ?fp (tasks st ! ?i)"
    using i lt by (simp_all add: inv_def)
  have rd: "readFileContent env ?fp = Inr content"
    using tk p by simp
  have sc: "scanFileContent env ?eng ?fp content = scanFileContent env eng0 ?fp content"
    using rg ig by (rule scanFileContent_same_rules)
  have same: "skipped_tasks env fps ((tasks st)[?i := t]) = skipped_tasks env fps (tasks st)" for t
    using rd by (intro skipped_tasks_readable) simp
  show ?thesis
  proof (cases "cache ?eng")
    case None
    have st: "scanFile_store env ?eng ?fp content (snd ev) = (scanFileContent env eng0 ?fp content, ?eng)"
      using scanFile_store_nocache[OF None] sc by simp
    have t: "task_ok env eng0 ?fp (Returned (scanFileContent env eng0 ?fp content))"
      using rd caches_ok_None[OF co None] by (simp add: file_findings_def)
    show ?thesis
      unfolding step_Scanning[OF lt p] st fst_conv snd_conv
      by (rule inv_update[OF i _ _ _ t]) (simp_all add: rg ig co same sk)
  next
    case (Some c)
    then obtain c0 where c0: "cache eng0 = Some c0" and ok: "cache_ok env eng0 c0 c"
      using caches_ok_Some[OF co] by blast
    have nv: "\<not> isValid c0 ?fp (getContentHash env content)"
      using tk p c0 by simp
    let ?c' = "set_entry c ?fp (getContentHash env content) (scanFileContent env eng0 ?fp content) (snd ev)"
    have st: "scanFile_store env ?eng ?fp content (snd ev) =
                (scanFileContent env eng0 ?fp content, ?eng\<lparr> cache := Some ?c' \<rparr>)"
      using scanFile_store_cache[OF Some] sc by simp
    have t: "task_ok env eng0 ?fp (Returned (scanFileContent env eng0 ?fp content))"
      using rd c0 nv by (simp add: file_findings_def)
    have co': "caches_ok env eng0 (?eng\<lparr> cache := Some ?c' \<rparr>)"
      using c0 cache_ok_set_entry[OF ok rd nv] by (simp add: caches_ok_def)
    show ?thesis
      unfolding step_Scanning[OF lt p] st fst_conv snd_conv
      by (rule inv_update[OF i _ _ _ t]) (simp_all add: rg ig co' same sk)
  qed
qed

lemma inv_step_Returned:
  assumes i: "inv env eng0 fps st" and lt: "fst ev < length (tasks st)"
    and p: "tasks st ! fst ev = Returned fs"
  shows "inv env eng0 fps (step env fps ev st)"
proof -
  let ?i = "fst ev"
  have tk: "task_ok env eng0 (fps ! ?i) (tasks st ! ?i)"
    using i lt by (simp add: inv_def)
  then have t: "task_ok env eng0 (fps ! ?i) (Done fs)" using p by simp
  have same: "skipped_tasks env fps ((tasks st)[?i := Done fs]) = skipped_tasks env fps (tasks st)"
    using lt p by (intro skipped_tasks_same) simp_all
  have "\<forall>j < length fps. task_ok env eng0 (fps ! j) (tasks st ! j)"
    using i by (simp add: inv_def)
  then have "\<forall>j < length fps. task_ok env eng0 (fps ! j) ((tasks st)[?i := Done fs] ! j)"
    using t by (rule task_ok_update)
  then show ?thesis
    unfolding step_Returned[OF lt p] using i same by (simp add: inv_def)
qed

lemma inv_step: "inv env eng0 fps st \<Longrightarrow> inv env eng0 fps (step env fps ev st)"
proof (cases "fst ev < length (tasks st)")
  case True
  assume i: "inv env eng0 fps st"
  show ?thesis
  proof (cases "tasks st ! fst ev")
    case Pending
    then show ?thesis using i True by (rule inv_step_Pending[rotated 2])
  next
    case (Scanning content)
    then show ?thesis using i True by (rule inv_step_Scanning[rotated 2])
  next
    case (Returned fs)
    then show ?thesis using i True by (rule inv_step_Returned[rotated 2])
  next
    case (Done fs)
    then show ?thesis using i True by (simp add: step_Done)
  qed
next
  case False
  assume "inv env eng0 fps st"
  then show ?thesis using False by (simp add: step_out)
qed

lemma inv_run_tasks: "inv env eng0 fps st \<Longrightarrow> inv env eng0 fps (run_tasks env fps sched st)"
  by (induction sched arbitrary: st) (simp_all add: run_tasks_Nil run_tasks_Cons inv_step)

lemma inv_start:
  "inv env eng fps \<lparr> engine = eng\<lparr> skippedFiles := 0, cachedFiles := b \<rparr>,
       tasks = replicate (length fps) Pending, completed = 0, progress = [] \<rparr>"
proof -
  have "caches_ok env eng (eng\<lparr> skippedFiles := 0, cachedFiles := b \<rparr>)"
    by (cases "cache eng") (simp_all add: caches_ok_def cache_ok_refl)
  moreover have "skipped_tasks env fps (replicate (length fps) Pending) = {}"
    by (auto simp: skipped_tasks_def)
  ultimately show ?thesis by (simp add: inv_def)
qed

subsection \<open>The result of a run\<close>

lemma all_Done_results:
  assumes "length ts = length fps" and "list_all is_Done ts"
    and "\<forall>i < length fps. task_ok env eng0 (fps ! i) (ts ! i)"
  shows "map result_of ts = map (file_findings env eng0) fps"
proof (rule nth_equalityI)
  show "length (map result_of ts) = length (map (file_findings env eng0) fps)"
    using assms(1) by simp
next
  fix i assume "i < length (map result_of ts)"
  then have i: "i < length ts" by simp
  then have d: "is_Done (ts ! i)" using assms(2) by (simp add: list_all_length)
  have "task_ok env eng0 (fps ! i) (ts ! i)" using assms(1,3) i by simp
  then have "result_of (ts ! i) = file_findings env eng0 (fps ! i)"
    using d by (cases "ts ! i") simp_all
  then show "map result_of ts ! i = map (file_findings env eng0) fps ! i"
    using i assms(1) by simp
qed

lemma all_Done_skipped:
  assumes "length ts = length fps" and "list_all is_Done ts"
  shows "card (skipped_tasks env fps ts) = length (filter (\<lambda>fp. isl (readFileContent env fp)) fps)"
proof -
  have "ts ! i \<noteq> Pending" if "i < length fps" for i
  proof -
    have "is_Done (ts ! i)" using assms that by (simp add: list_all_length)
    then show ?thesis by (cases "ts ! i") simp_all
  qed
  then have "skipped_tasks env fps ts = {i. i < length fps \<and> isl (readFileContent env (fps ! i))}"
    unfolding skipped_tasks_def by blast
  then show ?thesis by (simp add: length_filter_conv_card)
qed

lemma run_result:
  assumes "runRulesOnFiles env eng fps sched = Some r"
  shows "ScanResult.findings r = concat (map (file_findings env eng) fps)"
    and "scannedFiles r = length fps"
    and "ScanResult.skippedFiles r =
           (if 0 < length (filter (\<lambda>fp. isl (readFileContent env fp)) fps)
            then Some (length (filter (\<lambda>fp. isl (readFileContent env fp)) fps)) else None)"
proof -
  define st where
    "st = run_tasks env fps sched
            \<lparr> engine = eng\<lparr> skippedFiles := 0, cachedFiles := 0 \<rparr>,
              tasks = replicate (length fps) Pending, completed = 0, progress = [] \<rparr>"
  have i: "inv env eng fps st"
    unfolding st_def by (rule inv_run_tasks[OF inv_start])
  have eq: "runRulesOnFiles env eng fps sched =
      (if list_all is_Done (tasks st) then
         Some \<lparr> findings = concat (map result_of (tasks st)),
                scannedFiles = length fps,
                skippedFiles =
                  (if skippedFiles (engine st) > 0 then Some (skippedFiles (engine st)) else None),
                cachedFiles =
                  (if cachedFiles (engine st) > 0 then Some (cachedFiles (engine st)) else None) \<rparr>
       else None)"
    unfolding runRulesOnFiles_def Let_def st_def by (rule refl)
  have d: "list_all is_Done (tasks st)"
    using assms unfolding eq by (simp split: if_splits)
  have r: "r = \<lparr> findings = concat (map result_of (tasks st)),
                 scannedFiles = length fps,
                 skippedFiles =
                    (if skippedFiles (engine st) > 0 then Some (skippedFiles (engine st)) else None),
                 cachedFiles =
                    (if cachedFiles (engine st) > 0 then Some (cachedFiles (engine st)) else None) \<rparr>"
    using assms d unfolding eq by simp
  have len: "length (tasks st) = length fps"
    and tk: "\<forall>i < length fps. task_ok env eng (fps ! i) (tasks st ! i)"
    and sk: "skippedFiles (engine st) = card (skipped_tasks env fps (tasks st))"
    using i by (simp_all add: inv_def)
  show "ScanResult.findings r = concat (map (file_findings env eng) fps)"
    using all_Done_results[OF len d tk] by (simp add: r)
  show "scannedFiles r = length fps" by (simp add: r)
  show "ScanResult.skippedFiles r =
           (if 0 < length (filter (\<lambda>fp. isl (readFileContent env fp)) fps)
            then Some (length (filter (\<lambda>fp. isl (readFileContent env fp)) fps)) else None)"
    using all_Done_skipped[OF len d, of env] sk by (simp add: r)
qed

lemma run_returns:
  assumes "complete (length fps) sched"
  shows "\<exists>r. runRulesOnFiles env eng fps sched = Some r"
proof -
  let ?st0 = "\<lparr> engine = eng\<lparr> skippedFiles := 0, cachedFiles := 0 \<rparr>,
              tasks = replicate (length fps) Pending, completed = 0, progress = [] \<rparr>"
  have "complete (length (tasks ?st0)) sched" using assms by simp
  then have "list_all is_Done (tasks (run_tasks env fps sched ?st0))"
    by (rule complete_all_Done)
  then show ?thesis by (simp add: runRulesOnFiles_def Let_def)
qed

lemma file_findings_empty_cache:
  assumes "files (ScanCache.cache c) = []"
  shows "file_findings env (eng\<lparr> cache := Some c \<rparr>) fp = file_findings env (eng\<lparr> cache := None \<rparr>) fp"
proof -
  have nv: "\<not> isValid c fp h" for h
    using assms by (simp add: isValid_def)
  have "scanFileContent env (eng\<lparr> cache := Some c \<rparr>) fp content =
        scanFileContent env (eng\<lparr> cache := None \<rparr>) fp content" for content
    by (rule scanFileContent_same_rules) simp_all
  then show ?thesis
    by (cases "readFileContent env fp") (simp_all add: file_findings_def nv)
qed

section \<open>Properties of the rule engine\<close>

subsection \<open>Order of the findings\<close>

text \<open>
  C2. The findings of the result are the findings of the files, concatenated in the
  order of the input list, whatever the order in which the tasks ran and finished; and
  every schedule that lets each task finish gives a result.
\<close>

theorem findings_in_input_order:
  "(\<forall>r. runRulesOnFiles env eng filePaths schedule = Some r \<longrightarrow>
        ScanResult.findings r = concat (map (\<lambda>fp. fst (scanFile env eng fp now)) filePaths))
   \<and> (complete (length filePaths) schedule \<longrightarrow>
        (\<exists>r. runRulesOnFiles env eng filePaths schedule = Some r))"
  using run_result(1)[of env eng filePaths schedule] run_returns[of filePaths schedule env eng]
  by (simp add: scanFile_fst)

theorem findings_in_input_order_witness:
  "complete (length [''/src/a.js'', ''/src/b.js'']) schedule_second_first
   \<and> runRulesOnFiles env_demo engine_demo [''/src/a.js'', ''/src/b.js''] schedule_second_first =
       Some \<lparr> findings =
                [finding_of ''HIGH_RULE'' HIGH ''/src/a.js'', finding_of ''LOW_RULE'' LOW ''/src/a.js'',
                 finding_of ''HIGH_RULE'' HIGH ''/src/b.js'', finding_of ''LOW_RULE'' LOW ''/src/b.js''],
              scannedFiles = 2, skippedFiles = None, cachedFiles = None \<rparr>
   \<and> concat (map (\<lambda>fp. fst (scanFile env_demo engine_demo fp 0)) [''/src/a.js'', ''/src/b.js'']) =
       [finding_of ''HIGH_RULE'' HIGH ''/src/a.js'', finding_of ''LOW_RULE'' LOW ''/src/a.js'',
        finding_of ''HIGH_RULE'' HIGH ''/src/b.js'', finding_of ''LOW_RULE'' LOW ''/src/b.js'']"
proof -
  have c: "complete (length [''/src/a.js'', ''/src/b.js'']) schedule_second_first"
    by code_simp
  have r: "runRulesOnFiles env_demo engine_demo [''/src/a.js'', ''/src/b.js''] schedule_second_first =
       Some \<lparr> findings =
                [finding_of ''HIGH_RULE'' HIGH ''/src/a.js'', finding_of ''LOW_RULE'' LOW ''/src/a.js'',
                 finding_of ''HIGH_RULE'' HIGH ''/src/b.js'', finding_of ''LOW_RULE'' LOW ''/src/b.js''],
              scannedFiles = 2, skippedFiles = None, cachedFiles = None \<rparr>"
    by code_simp
  show ?thesis
    using findings_in_input_order[of env_demo engine_demo "[''/src/a.js'', ''/src/b.js'']"
            schedule_second_first 0] c r
    by simp
qed

subsection \<open>The cache is an optimisation\<close>

text \<open>
  C1. With a fixed set of rules and a fixed list of files, a run with no cache wired and a
  run over a fresh, empty cache give the same findings, whatever the two schedules; and
  both give a result on every schedule that lets each task finish.
\<close>

theorem cache_does_not_change_findings:
  assumes "files (ScanCache.cache c) = []"
  shows "(\<forall>r1 r2. runRulesOnFiles env (eng\<lparr> cache := None \<rparr>) filePaths schedule1 = Some r1 \<longrightarrow>
                 runRulesOnFiles env (eng\<lparr> cache := Some c \<rparr>) filePaths schedule2 = Some r2 \<longrightarrow>
                 ScanResult.findings r1 = ScanResult.findings r2)
       \<and> (complete (length filePaths) schedule1 \<longrightarrow> complete (length filePaths) schedule2 \<longrightarrow>
            (\<exists>r1 r2. runRulesOnFiles env (eng\<lparr> cache := None \<rparr>) filePaths schedule1 = Some r1 \<and>
                     runRulesOnFiles env (eng\<lparr> cache := Some c \<rparr>) filePaths schedule2 = Some r2))"
proof -
  have m: "map (file_findings env (eng\<lparr> cache := Some c \<rparr>)) filePaths =
           map (file_findings env (eng\<lparr> cache := None \<rparr>)) filePaths"
    by (simp add: file_findings_empty_cache[OF assms])
  have same: "ScanResult.findings r1 = ScanResult.findings r2"
    if r1: "runRulesOnFiles env (eng\<lparr> cache := None \<rparr>) filePaths schedule1 = Some r1"
      and r2: "runRulesOnFiles env (eng\<lparr> cache := Some c \<rparr>) filePaths schedule2 = Some r2"
    for r1 r2
    using run_result(1)[OF r1] run_result(1)[OF r2] m by simp
  have both: "\<exists>r1 r2. runRulesOnFiles env (eng\<lparr> cache := None \<rparr>) filePaths schedule1 = Some r1 \<and>
                     runRulesOnFiles env (eng\<lparr> cache := Some c \<rparr>) filePaths schedule2 = Some r2"
    if "complete (length filePaths) schedule1" and "complete (length filePaths) schedule2"
    using run_returns[OF that(1), of env "eng\<lparr> cache := None \<rparr>"]
      run_returns[OF that(2), of env "eng\<lparr> cache := Some c \<rparr>"]
    by blast
  show ?thesis
    using same both by blast
qed

theorem cache_does_not_change_findings_witness:
  "files (ScanCache.cache (new_ScanCache ''1.0.0'' 1000)) = []
   \<and> enableCache engine_demo ''1.0.0'' (Inl (Error ''ENOENT'')) 1000 =
       engine_demo\<lparr> cache := Some (new_ScanCache ''1.0.0'' 1000) \<rparr>
   \<and> runRulesOnFiles env_demo (engine_demo\<lparr> cache := None \<rparr>)
         [''/src/a.js'', ''/src/b.js'', ''/src/a.js''] schedule_three =
       Some \<lparr> findings =
                [finding_of ''HIGH_RULE'' HIGH ''/src/a.js'', finding_of ''LOW_RULE'' LOW ''/src/a.js'',
                 finding_of ''HIGH_RULE'' HIGH ''/src/b.js'', finding_of ''LOW_RULE'' LOW ''/src/b.js'',
                 finding_of ''HIGH_RULE'' HIGH ''/src/a.js'', finding_of ''LOW_RULE'' LOW ''/src/a.js''],
              scannedFiles = 3, skippedFiles = None, cachedFiles = None \<rparr>
   \<and> runRulesOnFiles env_demo (engine_demo\<lparr> cache := Some (new_ScanCache ''1.0.0'' 1000) \<rparr>)
         [''/src/a.js'', ''/src/b.js'', ''/src/a.js''] schedule_three =
       Some \<lparr> findings =
                [finding_of ''HIGH_RULE'' HIGH ''/src/a.js'', finding_of ''LOW_RULE'' LOW ''/src/a.js'',
                 finding_of ''HIGH_RULE'' HIGH ''/src/b.js'', finding_of ''LOW_RULE'' LOW ''/src/b.js'',
                 finding_of ''HIGH_RULE'' HIGH ''/src/a.js'', finding_of ''LOW_RULE'' LOW ''/src/a.js''],
              scannedFiles = 3, skippedFiles = None, cachedFiles = Some 1 \<rparr>"
proof -
  have e: "files (ScanCache.cache (new_ScanCache ''1.0.0'' 1000)) = []"
    by (simp add: new_ScanCache_def createEmptyCache_def)
  have en: "enableCache engine_demo ''1.0.0'' (Inl (Error ''ENOENT'')) 1000 =
       engine_demo\<lparr> cache := Some (new_ScanCache ''1.0.0'' 1000) \<rparr>"
    by (simp add: enableCache_def load_def new_ScanCache_def createEmptyCache_def)
  have r1: "runRulesOnFiles env_demo (engine_demo\<lparr> cache := None \<rparr>)
         [''/src/a.js'', ''/src/b.js'', ''/src/a.js''] schedule_three =
       Some \<lparr> findings =
                [finding_of ''HIGH_RULE'' HIGH ''/src/a.js'', finding_of ''LOW_RULE'' LOW ''/src/a.js'',
                 finding_of ''HIGH_RULE'' HIGH ''/src/b.js'', finding_of ''LOW_RULE'' LOW ''/src/b.js'',
                 finding_of ''HIGH_RULE'' HIGH ''/src/a.js'', finding_of ''LOW_RULE'' LOW ''/src/a.js''],
              scannedFiles = 3, skippedFiles = None, cachedFiles = None \<rparr>"
    by code_simp
  have r2: "runRulesOnFiles env_demo (engine_demo\<lparr> cache := Some (new_ScanCache ''1.0.0'' 1000) \<rparr>)
         [''/src/a.js'', ''/src/b.js'', ''/src/a.js''] schedule_three =
       Some \<lparr> findings =
                [finding_of ''HIGH_RULE'' HIGH ''/src/a.js'', finding_of ''LOW_RULE'' LOW ''/src/a.js'',
                 finding_of ''HIGH_RULE'' HIGH ''/src/b.js'', finding_of ''LOW_RULE'' LOW ''/src/b.js'',
                 finding_of ''HIGH_RULE'' HIGH ''/src/a.js'', finding_of ''LOW_RULE'' LOW ''/src/a.js''],
              scannedFiles = 3, skippedFiles = None, cachedFiles = Some 1 \<rparr>"
    by code_simp
  show ?thesis
    using cache_does_not_change_findings[OF e, of env_demo engine_demo
            "[''/src/a.js'', ''/src/b.js'', ''/src/a.js'']" schedule_three schedule_three] e en r1 r2
    by simp
qed

subsection \<open>A rule that throws\<close>

text \<open>
  C4. A rule whose \<open>apply\<close> throws adds nothing, and the applicable rules before and after
  it add their findings as if it were not there; the findings of a run are those of the
  files one by one, so what a rule does on one file changes nothing for another; and the
  run gives a result on every schedule that lets each task finish, whatever the rules do.
\<close>

theorem rule_failure_is_isolated:
  assumes "getApplicableRules eng fp = before @ rule # after"
    and "apply_rule rule (prepareContext env fp content) = Inl e"
  shows "scanFileContent env eng fp content =
           enrichFindingsWithDebugContext env
             (apply_rules before (prepareContext env fp content) [] @
              apply_rules after (prepareContext env fp content) []) content
       \<and> (\<forall>r. runRulesOnFiles env eng filePaths schedule = Some r \<longrightarrow>
              ScanResult.findings r = concat (map (\<lambda>fp. fst (scanFile env eng fp now)) filePaths))
       \<and> (complete (length filePaths) schedule \<longrightarrow>
              (\<exists>r. runRulesOnFiles env eng filePaths schedule = Some r))"
proof -
  have "rule_contribution (prepareContext env fp content) rule = []"
    using assms(2) by (simp add: rule_contribution_def)
  then have "scanFileContent env eng fp content =
           enrichFindingsWithDebugContext env
             (apply_rules before (prepareContext env fp content) [] @
              apply_rules after (prepareContext env fp content) []) content"
    using assms(1) by (simp add: scanFileContent_def Let_def apply_rules_concat)
  then show ?thesis
    using run_result(1)[of env eng filePaths schedule] run_returns[of filePaths schedule env eng]
    by (simp add: scanFile_fst)
qed

theorem rule_failure_is_isolated_witness:
  "getApplicableRules engine_demo ''/src/a.js'' = [rule_high] @ rule_throws # [rule_low]
   \<and> apply_rule rule_throws (prepareContext env_demo ''/src/a.js'' ''const a = 1;'') = Inl (Error ''boom'')
   \<and> scanFileContent env_demo engine_demo ''/src/a.js'' ''const a = 1;'' =
       [finding_of ''HIGH_RULE'' HIGH ''/src/a.js'', finding_of ''LOW_RULE'' LOW ''/src/a.js'']
   \<and> runRulesOnFiles env_demo engine_demo [''/src/a.js'', ''/src/b.js''] schedule_in_order =
       Some \<lparr> findings =
                [finding_of ''HIGH_RULE'' HIGH ''/src/a.js'', finding_of ''LOW_RULE'' LOW ''/src/a.js'',
                 finding_of ''HIGH_RULE'' HIGH ''/src/b.js'', finding_of ''LOW_RULE'' LOW ''/src/b.js''],
              scannedFiles = 2, skippedFiles = None, cachedFiles = None \<rparr>"
proof -
  have a: "getApplicableRules engine_demo ''/src/a.js'' = [rule_high] @ rule_throws # [rule_low]"
    by (simp add: getApplicableRules_def getAllRules_def engine_demo_def registerRuleGroup_def
        new_RuleEngine_def rule_high_def rule_throws_def rule_low_def endsWith_def)
  have t: "apply_rule rule_throws (prepareContext env_demo ''/src/a.js'' ''const a = 1;'') = Inl (Error ''boom'')"
    by (simp add: rule_throws_def)
  have s: "enrichFindingsWithDebugContext env_demo
             (apply_rules [rule_high] (prepareContext env_demo ''/src/a.js'' ''const a = 1;'') [] @
              apply_rules [rule_low] (prepareContext env_demo ''/src/a.js'' ''const a = 1;'') [])
             ''const a = 1;'' =
           [finding_of ''HIGH_RULE'' HIGH ''/src/a.js'', finding_of ''LOW_RULE'' LOW ''/src/a.js'']"
    by code_simp
  have r: "runRulesOnFiles env_demo engine_demo [''/src/a.js'', ''/src/b.js''] schedule_in_order =
       Some \<lparr> findings =
                [finding_of ''HIGH_RULE'' HIGH ''/src/a.js'', finding_of ''LOW_RULE'' LOW ''/src/a.js'',
                 finding_of ''HIGH_RULE'' HIGH ''/src/b.js'', finding_of ''LOW_RULE'' LOW ''/src/b.js''],
              scannedFiles = 2, skippedFiles = None, cachedFiles = None \<rparr>"
    by code_simp
  show ?thesis
    using rule_failure_is_isolated[OF a t, of "[''/src/a.js'', ''/src/b.js'']" schedule_in_order 0] a t s r
    by simp
qed

subsection \<open>A file that cannot be read\<close>

text \<open>
  C5. Scanning a file whose content cannot be read adds exactly one to the skipped-file
  counter and gives no findings; a run over a list with such files reports their number
  as \<open>skippedFiles\<close>, has the findings of the other files, and gives a result on every
  schedule that lets each task finish.
\<close>

theorem unreadable_file_is_skipped:
  assumes "readFileContent env fp = Inl e"
  shows "scanFile env eng fp now = ([], eng\<lparr> skippedFiles := skippedFiles eng + 1 \<rparr>)
       \<and> (\<forall>r. runRulesOnFiles env eng filePaths schedule = Some r \<longrightarrow>
              ScanResult.skippedFiles r =
                (if 0 < length (filter (\<lambda>fp. isl (readFileContent env fp)) filePaths)
                 then Some (length (filter (\<lambda>fp. isl (readFileContent env fp)) filePaths))
                 else None)
              \<and> scannedFiles r = length filePaths
              \<and> ScanResult.findings r = concat (map (\<lambda>fp. fst (scanFile env eng fp now)) filePaths))
       \<and> (complete (length filePaths) schedule \<longrightarrow>
              (\<exists>r. runRulesOnFiles env eng filePaths schedule = Some r))"
proof -
  have "scanFile env eng fp now = ([], eng\<lparr> skippedFiles := skippedFiles eng + 1 \<rparr>)"
    using assms by (simp add: scanFile_def scanFile_check_unreadable)
  then show ?thesis
    using run_result[of env eng filePaths schedule] run_returns[of filePaths schedule env eng]
    by (simp add: scanFile_fst)
qed

theorem unreadable_file_is_skipped_witness:
  "readFileContent env_demo ''/nonexistent/file.js'' = Inl (Error ''ENOENT'')
   \<and> scanFile env_demo engine_demo ''/nonexistent/file.js'' 0 =
       ([], engine_demo\<lparr> skippedFiles := 1 \<rparr>)
   \<and> complete (length [''/src/a.js'', ''/nonexistent/file.js'', ''/src/b.js'']) schedule_three
   \<and> runRulesOnFiles env_demo engine_demo
         [''/src/a.js'', ''/nonexistent/file.js'', ''/src/b.js''] schedule_three =
       Some \<lparr> findings =
                [finding_of ''HIGH_RULE'' HIGH ''/src/a.js'', finding_of ''LOW_RULE'' LOW ''/src/a.js'',
                 finding_of ''HIGH_RULE'' HIGH ''/src/b.js'', finding_of ''LOW_RULE'' LOW ''/src/b.js''],
              scannedFiles = 3, skippedFiles = Some 1, cachedFiles = None \<rparr>"
proof -
  have u: "readFileContent env_demo ''/nonexistent/file.js'' = Inl (Error ''ENOENT'')"
    by (simp add: env_demo_def)
  have z: "skippedFiles engine_demo = 0"
    by (simp add: engine_demo_def registerRuleGroup_def new_RuleEngine_def)
  have c: "complete (length [''/src/a.js'', ''/nonexistent/file.js'', ''/src/b.js'']) schedule_three"
    by code_simp
  have r: "runRulesOnFiles env_demo engine_demo
         [''/src/a.js'', ''/nonexistent/file.js'', ''/src/b.js''] schedule_three =
       Some \<lparr> findings =
                [finding_of ''HIGH_RULE'' HIGH ''/src/a.js'', finding_of ''LOW_RULE'' LOW ''/src/a.js'',
                 finding_of ''HIGH_RULE'' HIGH ''/src/b.js'', finding_of ''LOW_RULE'' LOW ''/src/b.js''],
              scannedFiles = 3, skippedFiles = Some 1, cachedFiles = None \<rparr>"
    by code_simp
  show ?thesis
    using unreadable_file_is_skipped[OF u, of engine_demo 0
            "[''/src/a.js'', ''/nonexistent/file.js'', ''/src/b.js'']" schedule_three] u z c r
    by simp
qed

subsection \<open>The context of a file\<close>

lemma endsWith_last: "endsWith s t \<Longrightarrow> t \<noteq> [] \<Longrightarrow> last s = last t"
proof -
  assume e: "endsWith s t" and t: "t \<noteq> []"
  then have d: "drop (length s - length t) s = t" and l: "length t \<le> length s"
    by (simp_all add: endsWith_def)
  have "length s - length t < length s"
    using t l by (cases t) auto
  then have "last (drop (length s - length t) s) = last s"
    by (rule last_drop)
  then show ?thesis using d by simp
qed

lemma matches_js_last: "matches_js fp \<Longrightarrow> last fp = CHR ''s'' \<or> last fp = CHR ''x''"
  unfolding matches_js_def using endsWith_last[of fp] by fastforce

lemma json_not_js: "endsWith fp ''.json'' \<Longrightarrow> \<not> matches_js fp"
  using matches_js_last[of fp] endsWith_last[of fp "''.json''"] by auto

lemma xml_not_js: "endsWith fp ''.xml'' \<Longrightarrow> \<not> matches_js fp"
  using matches_js_last[of fp] endsWith_last[of fp "''.xml''"] by auto

lemma plist_not_js: "endsWith fp ''.plist'' \<Longrightarrow> \<not> matches_js fp"
  using matches_js_last[of fp] endsWith_last[of fp "''.plist''"] by auto

lemma xml_not_json: "endsWith fp ''.xml'' \<Longrightarrow> \<not> endsWith fp ''.json''"
  using endsWith_last[of fp "''.xml''"] endsWith_last[of fp "''.json''"] by auto

lemma plist_not_json: "endsWith fp ''.plist'' \<Longrightarrow> \<not> endsWith fp ''.json''"
  using endsWith_last[of fp "''.plist''"] endsWith_last[of fp "''.json''"] by auto

lemma plist_not_xml: "endsWith fp ''.plist'' \<Longrightarrow> \<not> endsWith fp ''.xml''"
  using endsWith_last[of fp "''.plist''"] endsWith_last[of fp "''.xml''"] by auto

text \<open>
  C8, as the code has it. The context built for a file has at most one of \<open>ast\<close>,
  \<open>config\<close>, \<open>xmlContent\<close>, \<open>plistContent\<close> populated, and the extension selects which:
  \<open>ast\<close> for a source file, when the parser succeeds; \<open>config\<close> for a \<open>.json\<close> file, when
  \<open>parseJsonSafe\<close> gives a value that passes the test; the raw text as \<open>xmlContent\<close> for
  an \<open>.xml\<close> file and as \<open>plistContent\<close> for a \<open>.plist\<close> file. A failed parse and any
  other extension leave all four absent.
\<close>

theorem prepareContext_payload_by_extension:
  "populated_payloads (prepareContext env fp content) \<le> 1
   \<and> filePath (prepareContext env fp content) = fp
   \<and> fileContent (prepareContext env fp content) = content
   \<and> ast (prepareContext env fp content) = (if matches_js fp then parseJSFile env fp content else None)
   \<and> config (prepareContext env fp content) =
        (if endsWith fp ''.json'' then parseJsonSafe env content else None)
   \<and> xmlContent (prepareContext env fp content) = (if endsWith fp ''.xml'' then Some content else None)
   \<and> plistContent (prepareContext env fp content) =
        (if endsWith fp ''.plist'' then Some content else None)"
proof -
  consider (js) "matches_js fp"
    | (json) "\<not> matches_js fp" "endsWith fp ''.json''"
    | (xml) "\<not> matches_js fp" "\<not> endsWith fp ''.json''" "endsWith fp ''.xml''"
    | (plist) "\<not> matches_js fp" "\<not> endsWith fp ''.json''" "\<not> endsWith fp ''.xml''" "endsWith fp ''.plist''"
    | (other) "\<not> matches_js fp" "\<not> endsWith fp ''.json''" "\<not> endsWith fp ''.xml''" "\<not> endsWith fp ''.plist''"
    by blast
  then show ?thesis
  proof cases
    case js
    then have "\<not> endsWith fp ''.json''" "\<not> endsWith fp ''.xml''" "\<not> endsWith fp ''.plist''"
      using json_not_js xml_not_js plist_not_js by blast+
    then show ?thesis using js
      by (cases "parseJSFile env fp content") (simp_all add: prepareContext_def populated_payloads_def)
  next
    case json
    then have "\<not> endsWith fp ''.xml''" "\<not> endsWith fp ''.plist''"
      using xml_not_json plist_not_json by blast+
    then show ?thesis using json
      by (cases "parseJsonSafe env content") (simp_all add: prepareContext_def populated_payloads_def)
  next
    case xml
    then have "\<not> endsWith fp ''.plist''"
      using plist_not_xml by blast
    then show ?thesis using xml
      by (simp add: prepareContext_def populated_payloads_def)
  next
    case plist
    then show ?thesis
      by (simp add: prepareContext_def populated_payloads_def)
  next
    case other
    then show ?thesis
      by (simp add: prepareContext_def populated_payloads_def)
  qed
qed

theorem prepareContext_payload_by_extension_witness:
  "populated_payloads (prepareContext env_demo ''/android/AndroidManifest.xml'' ''<manifest/>'') = 1
   \<and> xmlContent (prepareContext env_demo ''/android/AndroidManifest.xml'' ''<manifest/>'') = Some ''<manifest/>''
   \<and> ast (prepareContext env_demo ''/src/a.js'' ''const a = 1;'') = Some ()
   \<and> populated_payloads (prepareContext env_demo ''/src/a.js'' ''const a = 1;'') = 1"
proof -
  have x: "endsWith ''/android/AndroidManifest.xml'' ''.xml''" by (simp add: endsWith_def)
  have j: "matches_js ''/src/a.js''" by (simp add: matches_js_def endsWith_def)
  have p: "parseJSFile env_demo ''/src/a.js'' ''const a = 1;'' = Some ()" by (simp add: env_demo_def)
  have n1: "populated_payloads (prepareContext env_demo ''/android/AndroidManifest.xml'' ''<manifest/>'') = 1"
    by code_simp
  have n2: "populated_payloads (prepareContext env_demo ''/src/a.js'' ''const a = 1;'') = 1"
    by code_simp
  show ?thesis
    using prepareContext_payload_by_extension[of env_demo "''/android/AndroidManifest.xml''" "''<manifest/>''"]
      prepareContext_payload_by_extension[of env_demo "''/src/a.js''" "''const a = 1;''"] x j p n1 n2
    by simp
qed

text \<open>
  Three files whose context has none of the four: a text file, a source file that does not
  parse, and a \<open>.json\<close> file that does not parse.
\<close>

theorem prepareContext_no_payload:
  "populated_payloads (prepareContext env_demo ''/docs/notes.txt'' ''hello'') = 0
   \<and> populated_payloads (prepareContext env_demo ''/src/broken.js'' ''const = ;'') = 0
   \<and> populated_payloads (prepareContext env_demo ''/package.json'' ''{'') = 0"
  by code_simp

end
